theory Spec2Isabelle
  imports Main "HOL-Library.Word"
begin

section \<open>Bytes, errors and the underlying connection\<close>

text \<open>
  The package \<^verbatim>\<open>shadowsocks\<close> wraps a \<^verbatim>\<open>net.Conn\<close> three times: \<^verbatim>\<open>RemainConn\<close>,
  \<^verbatim>\<open>ObfsConn\<close> and \<^verbatim>\<open>DelayConn\<close>. The connection itself is the environment of the
  code. It is a record that holds a script of what successive \<^verbatim>\<open>Read\<close> calls deliver
  (\<open>inbound\<close>), a script of how successive \<^verbatim>\<open>Write\<close> calls end (\<open>wscript\<close>; when it is
  used up, writes succeed), the log of the buffers handed to \<^verbatim>\<open>Write\<close>, one entry per
  call (\<open>wcalls\<close>), whether \<^verbatim>\<open>Close\<close> was called, and what \<^verbatim>\<open>Close\<close> returns.

  Go's \<^verbatim>\<open>int\<close> is taken to be 64 bits wide. Struct embedding is record extension: a
  function on \<^verbatim>\<open>RemainConn\<close> applies to an \<^verbatim>\<open>ObfsConn\<close> as the promoted method does.
  The two mutexes and the condition variable have no counterpart here: every function
  is one call that runs alone, and the flags \<open>reading\<close> and \<open>destroy\<close> stand for what
  other goroutines have done before it.

  A byte slice that a \<^verbatim>\<open>Read\<close> fills is a pair: the backing array from the first byte
  of the slice to its capacity, as a list, and the length of the slice, at most the
  length of that list. A read returns the array with the bytes it stored.
\<close>

type_synonym byte = "8 word"

definition CR :: byte where "CR = 13"
definition LF :: byte where "LF = 10"

datatype err =
    EOF
  | ErrUnexpectedEOF
  | ConnErr nat
  | ShortRead
  | UnexpectedLengthChar byte
  | IncorrectChunked
  | ErrRange
  | ReadFromClosedObfs
  | ReadFromClosedConn
  | ConcurrentRead
  | UnexpectedObfsHeader
  | ParserErr nat
  | PoolErr nat

text \<open>A runtime panic (a slice bound or an index out of range) is not a returned error.\<close>

datatype 'a outcome = Panic | Return 'a

datatype revent = Data "byte list" | Fail err

datatype wevent = WOk | WFail nat err

record Conn =
  inbound :: "revent list"
  wscript :: "wevent list"
  wcalls :: "byte list list"
  closed :: bool
  close_result :: "err option"

text \<open>
  \<^verbatim>\<open>copy(dst, src)\<close> on a destination of \<open>k\<close> bytes that starts the array \<open>arr\<close>:
  the array afterwards, and the number of bytes copied.
\<close>

definition copy :: "byte list \<Rightarrow> nat \<Rightarrow> byte list \<Rightarrow> byte list \<times> nat" where
  "copy arr k src = (let n = min k (length src) in (take n src @ drop n arr, n))"

text \<open>
  \<^verbatim>\<open>Conn.Read(b)\<close> with \<open>len(b) = k\<close>, \<open>b\<close> starting the array \<open>arr\<close>: the next
  event of the script decides. A data segment delivers as much of itself as fits and
  keeps the rest for the next call; a segment with no bytes is a read of zero bytes
  with no error; a failure is reported once; the end of the script is the end of the
  stream. \<^verbatim>\<open>Conn.Write(b)\<close> records \<open>b\<close> and ends as the script says: a failure after
  some \<open>k\<close> bytes, or success.
\<close>

definition Conn_Read ::
  "'a Conn_scheme \<Rightarrow> byte list \<Rightarrow> nat \<Rightarrow> nat \<times> err option \<times> byte list \<times> 'a Conn_scheme" where
  "Conn_Read c arr k =
     (case inbound c of
        [] \<Rightarrow> (0, Some EOF, arr, c)
      | Fail e # evs \<Rightarrow> (0, Some e, arr, c\<lparr>inbound := evs\<rparr>)
      | Data d # evs \<Rightarrow>
          (let n = min k (length d)
           in (n, None, take n d @ drop n arr,
               c\<lparr>inbound := (if n = length d then evs else Data (drop n d) # evs)\<rparr>)))"

definition Conn_Write :: "'a Conn_scheme \<Rightarrow> byte list \<Rightarrow> nat \<times> err option \<times> 'a Conn_scheme" where
  "Conn_Write c b =
     (case wscript c of
        [] \<Rightarrow> (length b, None, c\<lparr>wcalls := wcalls c @ [b]\<rparr>)
      | WOk # ws \<Rightarrow> (length b, None, c\<lparr>wscript := ws, wcalls := wcalls c @ [b]\<rparr>)
      | WFail k e # ws \<Rightarrow>
          (min k (length b), Some e, c\<lparr>wscript := ws, wcalls := wcalls c @ [b]\<rparr>))"

definition Conn_Close :: "'a Conn_scheme \<Rightarrow> err option \<times> 'a Conn_scheme" where
  "Conn_Close c = (close_result c, c\<lparr>closed := True\<rparr>)"

section \<open>RemainConn\<close>

text \<open>
  \<^verbatim>\<open>RemainConn.Read\<close> serves the look-ahead bytes \<open>remain\<close> first and reads the
  connection only when there are none. \<^verbatim>\<open>RemainConn.Write\<close> puts the unsent bytes
  \<open>wremain\<close> before \<open>b\<close> in one underlying write; on an error it returns before
  \<open>wremain\<close> is cleared, with the result \<open>n\<close> still zero.
\<close>

record RemainConn = Conn +
  remain :: "byte list"
  wremain :: "byte list"

definition RemainConn_Read ::
  "'a RemainConn_scheme \<Rightarrow> byte list \<Rightarrow> nat \<Rightarrow>
     nat \<times> err option \<times> byte list \<times> 'a RemainConn_scheme" where
  "RemainConn_Read c arr k =
     (if length (remain c) = 0 then Conn_Read c arr k
      else
        (let (arr', n) = copy arr k (remain c)
         in (n, None, arr',
             (if n = length (remain c) then c\<lparr>remain := []\<rparr>
              else c\<lparr>remain := drop n (remain c)\<rparr>))))"

definition RemainConn_Write ::
  "'a RemainConn_scheme \<Rightarrow> byte list \<Rightarrow> nat \<times> err option \<times> 'a RemainConn_scheme" where
  "RemainConn_Write c b =
     (if length (wremain c) \<noteq> 0 then
        (case Conn_Write c (wremain c @ b) of
           (_, Some e, c') \<Rightarrow> (0, Some e, c')
         | (_, None, c') \<Rightarrow> (length b, None, c'\<lparr>wremain := []\<rparr>))
      else Conn_Write c b)"

section \<open>ObfsConn\<close>

text \<open>
  The field \<open>pool\<close> is a pointer: \<open>None\<close> is \<^verbatim>\<open>nil\<close>, \<open>Some p\<close> names a pool.
\<close>

record ObfsConn = RemainConn +
  resp :: bool
  req :: bool
  chunkLen :: int
  pool :: "nat option"
  eos :: bool
  reading :: bool
  destroy :: bool

subsection \<open>Write\<close>

text \<open>\<^verbatim>\<open>fmt.Sprintf("%x", n)\<close> for \<open>n \<ge> 0\<close>: lowercase digits, no leading zero.\<close>

definition hexdigit :: "nat \<Rightarrow> byte" where
  "hexdigit d = (if d < 10 then 48 + of_nat d else 87 + of_nat d)"

fun sprintf_x :: "nat \<Rightarrow> byte list" where
  "sprintf_x n = (if n < 16 then [hexdigit n] else sprintf_x (n div 16) @ [hexdigit (n mod 16)])"

declare sprintf_x.simps [simp del]

text \<open>The chunk record of a payload, as the wire format defines it.\<close>

definition frame :: "byte list \<Rightarrow> byte list" where
  "frame b = sprintf_x (length b) @ [CR, LF] @ b @ [CR, LF]"

text \<open>
  \<^verbatim>\<open>ObfsConn.Write\<close> (lines 189-204): the frame is built in \<open>wbuf\<close>, of \<open>n + 16\<close>
  bytes, by two calls of \<^verbatim>\<open>copy\<close>, which store what fits; the two terminator bytes are
  stored by index, which panics out of range. The deferred function sets \<open>n\<close> to zero
  on an error.
\<close>

definition ObfsConn_Write ::
  "'a ObfsConn_scheme \<Rightarrow> byte list \<Rightarrow> (nat \<times> err option \<times> 'a ObfsConn_scheme) outcome" where
  "ObfsConn_Write c b =
     (let n = length b;
          wbuf = replicate (n + 16) (0 :: byte);
          (wbuf, len) = copy wbuf (length wbuf) (sprintf_x n @ [CR, LF]);
          wbuf = take len wbuf @ fst (copy (drop len wbuf) (length wbuf - len) b);
          len = len + n
      in if \<not> len < length wbuf then Panic
         else if \<not> len + 1 < length wbuf then Panic
         else
           (let wbuf = (wbuf[len := CR])[len + 1 := LF]
            in case RemainConn_Write c (take (len + 2) wbuf) of
                 (_, e, c') \<Rightarrow> Return (if e \<noteq> None then 0 else n, e, c')))"

subsection \<open>Read\<close>

text \<open>
  What the sources use and do not define is a parameter, gathered in \<open>Env\<close>: the
  constant \<^verbatim>\<open>buffersize\<close>, the two header parsers and the response header that
  \<^verbatim>\<open>buildHTTPResponse("")\<close> returns. A parser is read one byte at a time and answers
  whether the header is complete and whether it failed; since it is deterministic, its
  answer to a byte is a function of the bytes it was fed before.
\<close>

type_synonym parser = "byte list \<Rightarrow> byte \<Rightarrow> bool \<times> err option"

record Env =
  buffersize :: nat
  newHTTPReplyParser :: parser
  newHTTPRequestParser :: parser
  buildHTTPResponse :: "byte list"

text \<open>
  The loop \<^verbatim>\<open>for ; it < n && !ok && err == nil; it++\<close> of \<^verbatim>\<open>readObfsHeader\<close> over
  the bytes read: the final \<open>it\<close>, \<open>ok\<close> and \<open>err\<close>.
\<close>

fun feed :: "parser \<Rightarrow> byte list \<Rightarrow> byte list \<Rightarrow> nat \<times> bool \<times> err option" where
  "feed p fed [] = (0, False, None)"
| "feed p fed (x # xs) =
     (case p fed x of
        (ok, e) \<Rightarrow>
          if \<not> ok \<and> e = None then (case feed p (fed @ [x]) xs of (it, r) \<Rightarrow> (Suc it, r))
          else (1, ok, e))"

text \<open>
  \<^verbatim>\<open>readObfsHeader\<close> (lines 206-248) and \<^verbatim>\<open>doRead\<close> (lines 250-258). The bytes
  behind the header go to \<open>b\<close>, and those that do not fit are appended to \<open>remain\<close>.
\<close>

definition readObfsHeader ::
  "Env \<Rightarrow> 'a ObfsConn_scheme \<Rightarrow> byte list \<Rightarrow> nat \<Rightarrow>
     nat \<times> err option \<times> byte list \<times> 'a ObfsConn_scheme" where
  "readObfsHeader E c b k =
     (case RemainConn_Read c (replicate (buffersize E) 0) (buffersize E) of
        (n, e, buf, c) \<Rightarrow>
          if e \<noteq> None then (n, e, b, c)
          else if n = 0 then (n, Some ShortRead, b, c)
          else
            (case (if resp c then feed (newHTTPReplyParser E) [] (take n buf)
                   else if req c then feed (newHTTPRequestParser E) [] (take n buf)
                   else (0, False, None)) of
               (it, ok, e) \<Rightarrow>
                 if e \<noteq> None then (n, e, b, c)
                 else if \<not> ok then (n, Some UnexpectedObfsHeader, b, c)
                 else
                   (let c = c\<lparr>resp := False, req := False\<rparr>;
                        rem = drop it (take n buf)
                    in if length rem \<noteq> 0 then
                         (let (b, n) = copy b k rem
                          in (n, None, b,
                              if n < length rem then c\<lparr>remain := remain c @ drop n rem\<rparr>
                              else c))
                       else (0, None, b, c))))"

definition doRead ::
  "Env \<Rightarrow> 'a ObfsConn_scheme \<Rightarrow> byte list \<Rightarrow> nat \<Rightarrow>
     nat \<times> err option \<times> byte list \<times> 'a ObfsConn_scheme" where
  "doRead E c b k =
     (if req c \<or> resp c then
        (case readObfsHeader E c b k of
           (n, e, b', c') \<Rightarrow>
             if e \<noteq> None \<or> n \<noteq> 0 then (n, e, b', c') else RemainConn_Read c' b' k)
      else RemainConn_Read c b k)"

text \<open>
  The two loops of \<^verbatim>\<open>readInLock\<close> end because every read that returns bytes without
  an error takes something from the look-ahead or from the script: this size decreases.
\<close>

fun ev_size :: "revent \<Rightarrow> nat" where
  "ev_size (Data d) = Suc (length d)"
| "ev_size (Fail e) = 1"

definition pending_size :: "'a RemainConn_scheme \<Rightarrow> nat" where
  "pending_size c = length (remain c) + sum_list (map ev_size (inbound c))"

lemma Conn_Read_pending:
  assumes "Conn_Read c b k = (n, e, b', c')" "0 < k"
  shows "pending_size c' \<le> pending_size c" and "e = None \<Longrightarrow> pending_size c' < pending_size c"
    and "pending_size c' + n \<le> pending_size c" and "length (remain c') = length (remain c)"
  using assms
  by (auto simp: Conn_Read_def pending_size_def Let_def split: list.splits revent.splits if_splits)

lemma RemainConn_Read_pending:
  assumes "RemainConn_Read c b k = (n, e, b', c')" "0 < k"
  shows "pending_size c' \<le> pending_size c" and "e = None \<Longrightarrow> pending_size c' < pending_size c"
    and "pending_size c' + n \<le> pending_size c"
proof -
  show "pending_size c' \<le> pending_size c"  "e = None \<Longrightarrow> pending_size c' < pending_size c"
    "pending_size c' + n \<le> pending_size c"
  using assms Conn_Read_pending [of c b k n e b' c']
  by (auto simp: RemainConn_Read_def copy_def pending_size_def Let_def split: if_splits)
qed

lemma feed_it: "feed p fed xs = (it, ok, e) \<Longrightarrow> it \<le> length xs \<and> (xs \<noteq> [] \<longrightarrow> 0 < it)"
  by (induction xs arbitrary: fed it ok e) (auto split: prod.splits if_splits)

lemma Conn_Read_n:
  assumes "Conn_Read c b k = (n, e, b', c')"
  shows "n \<le> k" and "k \<le> length b \<Longrightarrow> length b' = length b"
  using assms
  by (auto simp: Conn_Read_def Let_def split: list.splits revent.splits)

lemma RemainConn_Read_n:
  assumes "RemainConn_Read c b k = (n, e, b', c')"
  shows "n \<le> k" and "k \<le> length b \<Longrightarrow> length b' = length b"
  using assms Conn_Read_n [of c b k n e b' c']
  by (auto simp: RemainConn_Read_def copy_def Let_def split: if_splits)

lemma readObfsHeader_pending:
  assumes "readObfsHeader E c b k = (n, None, b', c')"
  shows "pending_size c' < pending_size c"
proof -
  obtain m e1 buf c1 where r: "RemainConn_Read c (replicate (buffersize E) 0) (buffersize E) = (m, e1, buf, c1)"
    by (metis prod_cases4)
  from assms r have e1: "e1 = None" and m: "m \<noteq> 0"
    by (auto simp: readObfsHeader_def split: if_splits)
  from RemainConn_Read_n [OF r] have mk: "m \<le> buffersize E" and lb: "length buf = buffersize E"
    by simp_all
  with m have k: "0 < buffersize E" by simp
  from RemainConn_Read_pending(3) [OF r k] have p1: "pending_size c1 + m \<le> pending_size c" .
  obtain it ok e2 where f: "(if resp c1 then feed (newHTTPReplyParser E) [] (take m buf)
                   else if req c1 then feed (newHTTPRequestParser E) [] (take m buf)
                   else (0, False, None)) = (it, ok, e2)"
    by (metis prod_cases3)
  from assms r e1 m f have ok: "ok" and e2: "e2 = None"
    by (auto simp: readObfsHeader_def split: if_splits)
  from f ok have "feed (newHTTPReplyParser E) [] (take m buf) = (it, ok, e2) \<or>
                  feed (newHTTPRequestParser E) [] (take m buf) = (it, ok, e2)"
    by (auto split: if_splits)
  then have it: "0 < it" "it \<le> m"
    using feed_it m mk lb by (fastforce)+
  from assms r e1 m f ok e2 it
  have "pending_size c' + it \<le> pending_size c1 + m"
    by (auto simp: readObfsHeader_def Let_def copy_def pending_size_def split: if_splits)
  with p1 it show ?thesis by simp
qed

lemma doRead_pending:
  assumes "doRead E c b k = (n, None, b', c')" "0 < k"
  shows "pending_size c' < pending_size c"
proof (cases "req c \<or> resp c")
  case False
  with assms show ?thesis
    by (auto simp: doRead_def dest: RemainConn_Read_pending(2))
next
  case True
  obtain n1 e1 b1 c1 where h: "readObfsHeader E c b k = (n1, e1, b1, c1)"
    by (metis prod_cases4)
  show ?thesis
  proof (cases "e1 \<noteq> None \<or> n1 \<noteq> 0")
    case True
    with assms h \<open>req c \<or> resp c\<close> have "readObfsHeader E c b k = (n, None, b', c')"
      by (auto simp: doRead_def)
    then show ?thesis by (rule readObfsHeader_pending)
  next
    case False
    with assms h \<open>req c \<or> resp c\<close> have "RemainConn_Read c1 b1 k = (n, None, b', c')"
      by (auto simp: doRead_def)
    from RemainConn_Read_pending(2) [OF this assms(2)] readObfsHeader_pending [of E c b k n1 b1 c1] h False
    show ?thesis by simp
  qed
qed

text \<open>
  The loop of lines 273-295, with the string built so far as an argument. It returns the
  last \<open>n\<close>, the error if it ended on one, and the string; \<open>isHex\<close> is the test of
  line 283.
\<close>

definition isHex :: "byte \<Rightarrow> bool" where
  "isHex c = ((48 \<le> c \<and> c \<le> 57) \<or> (97 \<le> c \<and> c \<le> 102))"

function readChunkLenStr ::
  "Env \<Rightarrow> 'a ObfsConn_scheme \<Rightarrow> byte list \<Rightarrow> byte list \<Rightarrow>
     nat \<times> err option \<times> byte list \<times> byte list \<times> 'a ObfsConn_scheme" where
  "readChunkLenStr E c b chunkLenStr =
     (case doRead E c b 1 of
        (n, e, b', c') \<Rightarrow>
          if e \<noteq> None then (n, e, chunkLenStr, b', c')
          else if n = 0 then (n, Some ShortRead, chunkLenStr, b', c')
          else
            (let ch = b' ! 0
             in if isHex ch then readChunkLenStr E c' b' (chunkLenStr @ [ch])
                else if ch = CR then readChunkLenStr E c' b' chunkLenStr
                else if ch = LF then (n, None, chunkLenStr, b', c')
                else (n, Some (UnexpectedLengthChar ch), chunkLenStr, b', c')))"
  by pat_completeness auto
termination
  by (relation "measure (\<lambda>(E, c, b, s). pending_size c)") (auto dest: doRead_pending [OF sym])

declare readChunkLenStr.simps [simp del]

text \<open>
  \<^verbatim>\<open>io.ReadFull(r, buf)\<close> of the Go library, that is \<^verbatim>\<open>io.ReadAtLeast\<close> with
  \<open>min = len(buf)\<close>: the loop \<^verbatim>\<open>for n < min && err == nil\<close> over \<^verbatim>\<open>r.Read(buf[n:])\<close>, then
  the error is dropped when enough was read, and an end of stream after some bytes
  becomes \<^verbatim>\<open>ErrUnexpectedEOF\<close>. The bytes read are not kept: the caller drops them.
\<close>

lemma RemainConn_Read_measure:
  assumes "(nn, e', z, r') = RemainConn_Read r b k" "0 < k"
  shows "pending_size r' + (if e' = None then 1 else 0) < Suc (pending_size r)"
  using RemainConn_Read_pending(1,2) [OF assms(1) [symmetric] assms(2)] by (cases e') auto

function ReadFull ::
  "'a RemainConn_scheme \<Rightarrow> nat \<Rightarrow> nat \<Rightarrow> err option \<Rightarrow>
     nat \<times> err option \<times> 'a RemainConn_scheme" where
  "ReadFull r len n e =
     (if n < len \<and> e = None then
        (case RemainConn_Read r (replicate (len - n) 0) (len - n) of
           (nn, e', _, r') \<Rightarrow> ReadFull r' len (n + nn) e')
      else (n, (if n \<ge> len then None
                else if n > 0 \<and> e = Some EOF then Some ErrUnexpectedEOF else e), r))"
  by pat_completeness auto
termination
  apply (relation "measure (\<lambda>(r, len, n, e). pending_size r + (if e = None then 1 else 0))")
   apply simp
  apply (simp only: in_measure prod.case)
  apply (elim conjE)
  apply hypsubst
  apply (drule RemainConn_Read_measure)
   apply simp
  apply simp
  done

declare ReadFull.simps [simp del]

text \<open>
  \<^verbatim>\<open>strconv.ParseInt(s, 16, 0)\<close> of the Go library on a non-empty string of the digits
  \<open>0-9a-f\<close>, the only strings it is called with: the value, or a range error beyond
  the largest \<^verbatim>\<open>int\<close>. The addition \<^verbatim>\<open>int(i) + 2\<close> wraps around.
\<close>

definition digitval :: "byte \<Rightarrow> nat" where
  "digitval c = (if c \<le> 57 then unat c - 48 else unat c - 87)"

definition hexval :: "byte list \<Rightarrow> nat" where
  "hexval s = foldl (\<lambda>v c. v * 16 + digitval c) 0 s"

definition maxInt :: int where
  "maxInt = 2 ^ 63 - 1"

definition ParseInt16 :: "byte list \<Rightarrow> err + int" where
  "ParseInt16 s = (if int (hexval s) \<le> maxInt then Inr (int (hexval s)) else Inl ErrRange)"

definition wrap64 :: "int \<Rightarrow> int" where
  "wrap64 x = (x + 2 ^ 63) mod 2 ^ 64 - 2 ^ 63"

text \<open>
  \<^verbatim>\<open>readInLock\<close> (lines 260-332) in its three steps. Lines 264-270: a chunk of which
  one or two bytes are left has only its terminator left; it is read, the count is
  dropped, and \<open>chunkLen\<close> becomes zero. Lines 271-306: with no chunk open, the length
  line is read and \<open>chunkLen\<close> becomes the length plus two. Lines 307-331: a chunk of
  length zero is the end-of-stream marker, anything else is payload. The result \<open>n\<close>
  is an \<^verbatim>\<open>int\<close>; the slice expressions \<^verbatim>\<open>b[:c.chunkLen]\<close> panic beyond the capacity and
  below zero.
\<close>

definition readTrailer ::
  "Env \<Rightarrow> 'a ObfsConn_scheme \<Rightarrow> byte list \<Rightarrow>
     (err option \<times> byte list \<times> 'a ObfsConn_scheme) outcome" where
  "readTrailer E c b =
     (if chunkLen c \<le> 2 \<and> chunkLen c > 0 then
        (if length b < nat (chunkLen c) then Panic
         else
           (case doRead E c b (nat (chunkLen c)) of
              (_, e, b', c') \<Rightarrow>
                if e \<noteq> None then Return (e, b', c')
                else Return (None, b', c'\<lparr>chunkLen := 0\<rparr>)))
      else Return (None, b, c))"

definition readChunkLen ::
  "Env \<Rightarrow> 'a ObfsConn_scheme \<Rightarrow> byte list \<Rightarrow>
     nat \<times> err option \<times> byte list \<times> 'a ObfsConn_scheme" where
  "readChunkLen E c b =
     (if chunkLen c = 0 then
        (case readChunkLenStr E c b [] of
           (n, e, chunkLenStr, b', c') \<Rightarrow>
             if e \<noteq> None then (n, e, b', c')
             else if length chunkLenStr = 0 then (n, Some IncorrectChunked, b', c')
             else
               (case ParseInt16 chunkLenStr of
                  Inl e \<Rightarrow> (n, Some e, b', c')
                | Inr i \<Rightarrow> (n, None, b', c'\<lparr>chunkLen := wrap64 (i + 2)\<rparr>)))
      else (0, None, b, c))"

definition readChunk ::
  "Env \<Rightarrow> 'a ObfsConn_scheme \<Rightarrow> byte list \<Rightarrow> nat \<Rightarrow> nat \<Rightarrow>
     (int \<times> err option \<times> byte list \<times> 'a ObfsConn_scheme) outcome" where
  "readChunk E c b len n =
     (if chunkLen c = 2 then
        (case ReadFull c 2 0 None of
           (_, e, c') \<Rightarrow>
             if e = None then Return (0, Some ReadFromClosedObfs, b, c'\<lparr>eos := True\<rparr>)
             else Return (int n, e, b, c'))
      else if \<not> chunkLen c > int len \<and> chunkLen c < 0 then Panic
      else
        (case doRead E c b (if chunkLen c > int len then len else nat (chunkLen c)) of
           (n, e, b', c') \<Rightarrow>
             if e \<noteq> None then Return (int n, e, b', c')
             else
               (let l = chunkLen c' - int n
                in Return (if l < 2 then int n - (2 - l) else int n, None, b',
                           c'\<lparr>chunkLen := l\<rparr>))))"

definition readInLock ::
  "Env \<Rightarrow> 'a ObfsConn_scheme \<Rightarrow> byte list \<Rightarrow> nat \<Rightarrow>
     (int \<times> err option \<times> byte list \<times> 'a ObfsConn_scheme) outcome" where
  "readInLock E c b len =
     (if len = 0 then Return (0, None, b, c)
      else
        (case readTrailer E c b of
           Panic \<Rightarrow> Panic
         | Return (e, b, c) \<Rightarrow>
             if e \<noteq> None then Return (0, e, b, c)
             else
               (case readChunkLen E c b of
                  (n, e, b, c) \<Rightarrow>
                    if e \<noteq> None then Return (int n, e, b, c)
                    else readChunk E c b len n)))"

text \<open>\<^verbatim>\<open>ObfsConn.Read\<close> (lines 334-357).\<close>

definition ObfsConn_Read ::
  "Env \<Rightarrow> 'a ObfsConn_scheme \<Rightarrow> byte list \<Rightarrow> nat \<Rightarrow>
     (int \<times> err option \<times> byte list \<times> 'a ObfsConn_scheme) outcome" where
  "ObfsConn_Read E c b len =
     (if destroy c then Return (0, Some ReadFromClosedConn, b, c)
      else if reading c then Return (0, Some ConcurrentRead, b, c)
      else
        (case readInLock E (c\<lparr>reading := True\<rparr>) b len of
           Panic \<Rightarrow> Panic
         | Return (n, e, b', c') \<Rightarrow> Return (n, e, b', c'\<lparr>reading := False\<rparr>)))"

subsection \<open>Close\<close>

text \<open>
  \<^verbatim>\<open>ObfsConn.Close\<close> (lines 138-187). \<open>fresh c\<close> is the literal
  \<^verbatim>\<open>&ObfsConn{RemainConn: c.RemainConn, pool: c.pool}\<close>. \<open>drain\<close> is the loop of lines
  156-178; it returns whether it ended with \<open>eos\<close> set, and the caller closes the
  connection when it did not. With \<open>reading\<close> set the loop waits for the reader and tries
  again; no reader runs here, so the loop does not return then, and neither does it with
  a buffer of size zero. \<^verbatim>\<open>pool.Put\<close> is a parameter, with the state of the pool.
\<close>

definition fresh :: "ObfsConn \<Rightarrow> ObfsConn" where
  "fresh c =
     \<lparr>inbound = inbound c, wscript = wscript c, wcalls = wcalls c, closed = closed c,
      close_result = close_result c, remain = remain c, wremain = wremain c,
      resp = False, req = False, chunkLen = 0, pool = pool c, eos = False,
      reading = False, destroy = False\<rparr>"

partial_function (option) drain ::
  "Env \<Rightarrow> ObfsConn \<Rightarrow> byte list \<Rightarrow> (bool \<times> ObfsConn) outcome option" where
  "drain E c buf =
     (if eos c then Some (Return (True, c))
      else if reading c then drain E c buf
      else
        (case readInLock E c buf (buffersize E) of
           Panic \<Rightarrow> Some Panic
         | Return (_, e, buf', c') \<Rightarrow>
             if e \<noteq> None then (if eos c' then Some (Return (True, c')) else Some (Return (False, c')))
             else drain E c' buf'))"

definition ObfsConn_Close ::
  "Env \<Rightarrow> ('p \<Rightarrow> ObfsConn \<Rightarrow> err option \<times> 'p) \<Rightarrow> 'p \<Rightarrow> ObfsConn \<Rightarrow>
     (err option \<times> ObfsConn \<times> 'p) outcome option" where
  "ObfsConn_Close E Put P c =
     (if destroy c then Some (Return (None, c, P))
      else
        (let c = c\<lparr>destroy := True\<rparr>
         in if pool c = None then
              (case Conn_Close c of (e, c) \<Rightarrow> Some (Return (e, c, P)))
            else
              (case ObfsConn_Write c [] of
                 Panic \<Rightarrow> Some Panic
               | Return (_, e, c) \<Rightarrow>
                   if e \<noteq> None then
                     (case Conn_Close c of (e, c) \<Rightarrow> Some (Return (e, c, P)))
                   else
                     (case drain E c (replicate (buffersize E) 0) of
                        None \<Rightarrow> None
                      | Some Panic \<Rightarrow> Some Panic
                      | Some (Return (marker, c)) \<Rightarrow>
                          if \<not> marker then
                            (case Conn_Close c of (e, c) \<Rightarrow> Some (Return (e, c, P)))
                          else
                            (case Put P (fresh c) of
                               (e, P) \<Rightarrow>
                                 if e \<noteq> None then
                                   (case Conn_Close c of (e, c) \<Rightarrow> Some (Return (e, c, P)))
                                 else Some (Return (None, c, P)))))))"

section \<open>The accept handler\<close>

text \<open>
  \<^verbatim>\<open>obfsAcceptHandler\<close> (lines 428-451) returns \<^verbatim>\<open>nil\<close> after closing the connection,
  a \<^verbatim>\<open>RemainConn\<close>, or an \<^verbatim>\<open>ObfsConn\<close>. Its second argument is \<^verbatim>\<open>lis.c.pool\<close>.
\<close>

datatype accepted = NoConn Conn | Plain RemainConn | Obfs ObfsConn

definition POST :: "byte list" where
  "POST = [80, 79, 83, 84]"

definition obfsAcceptHandler :: "Env \<Rightarrow> Conn \<Rightarrow> nat option \<Rightarrow> accepted" where
  "obfsAcceptHandler E conn lis_pool =
     (case Conn_Read conn (replicate (buffersize E) 0) (buffersize E) of
        (n, e, buf, conn) \<Rightarrow>
          if e \<noteq> None \<or> n = 0 then NoConn (snd (Conn_Close conn))
          else if n > 4 \<and> take 4 buf \<noteq> POST then
            Plain \<lparr>inbound = inbound conn, wscript = wscript conn, wcalls = wcalls conn,
                   closed = closed conn, close_result = close_result conn,
                   remain = take n buf, wremain = []\<rparr>
          else
            Obfs \<lparr>inbound = inbound conn, wscript = wscript conn, wcalls = wcalls conn,
                  closed = closed conn, close_result = close_result conn,
                  remain = take n buf, wremain = buildHTTPResponse E,
                  resp = False, req = True, chunkLen = 0, pool = lis_pool, eos = False,
                  reading = False, destroy = False\<rparr>)"

section \<open>DelayConn\<close>

text \<open>
  \<^verbatim>\<open>DelayConn.Write\<close> (lines 83-111). The array \<open>wbuf\<close> has \<^verbatim>\<open>buffersize\<close> bytes.
  Two counters stand for what the call does to other goroutines: \<open>spawned\<close> counts the
  \<^verbatim>\<open>go c.sendLoop()\<close> statements executed, \<open>signals\<close> the calls of \<^verbatim>\<open>c.cond.Signal()\<close>.
\<close>

record DelayConn = Conn +
  wbuf :: "byte list"
  off :: nat
  started :: bool
  destroyed :: bool
  spawned :: nat
  signals :: nat

definition DelayConn_Write ::
  "Env \<Rightarrow> DelayConn \<Rightarrow> byte list \<Rightarrow> (nat \<times> err option \<times> DelayConn) outcome" where
  "DelayConn_Write E c b =
     (let n = length b
      in if n = 0 then Return (n, None, c)
         else if n + off c \<ge> buffersize E then
           (if off c > length (wbuf c) then Panic
            else
              (let buf = replicate (n + off c) 0;
                   buf = fst (copy buf (length buf) (take (off c) (wbuf c)));
                   buf = take (off c) buf @ fst (copy (drop (off c) buf) (length buf - off c) b)
               in case Conn_Write c buf of
                    (_, e, c) \<Rightarrow> Return (if e \<noteq> None then 0 else n, e, c\<lparr>off := 0\<rparr>)))
         else if off c > length (wbuf c) then Panic
         else
           (let c = c\<lparr>wbuf := take (off c) (wbuf c) @
                              fst (copy (drop (off c) (wbuf c)) (length (wbuf c) - off c) b)\<rparr>;
                c = c\<lparr>off := off c + length b\<rparr>;
                c = (if \<not> started c then c\<lparr>started := True, spawned := spawned c + 1\<rparr> else c)
            in Return (n, None, c\<lparr>signals := signals c + 1\<rparr>)))"

section \<open>The stream a connection still holds\<close>

text \<open>
  The bytes a framer will read before the connection fails or ends: its look-ahead, then
  the data segments up to the first failure. \<open>segments_ok\<close> says that no segment is
  empty, so that no read returns zero bytes without an error.
\<close>

fun stream_of :: "revent list \<Rightarrow> byte list" where
  "stream_of [] = []"
| "stream_of (Fail e # evs) = []"
| "stream_of (Data d # evs) = d @ stream_of evs"

definition unread :: "'a RemainConn_scheme \<Rightarrow> byte list" where
  "unread c = remain c @ stream_of (inbound c)"

definition segments_ok :: "revent list \<Rightarrow> bool" where
  "segments_ok evs = list_all (\<lambda>ev. ev \<noteq> Data []) evs"

text \<open>The fields that reading never touches.\<close>

definition untouched :: "'a ObfsConn_scheme \<Rightarrow> 'a ObfsConn_scheme" where
  "untouched c = c\<lparr>inbound := [], remain := [], resp := False, req := False, chunkLen := 0, eos := False\<rparr>"

section \<open>Example states\<close>

text \<open>
  A framer after the handshake, with nothing queued and nothing read so far, on a
  connection whose peer sends the events \<open>evs\<close> and whose writes all succeed.
\<close>

definition framer :: "revent list \<Rightarrow> ObfsConn" where
  "framer evs =
     \<lparr>inbound = evs, wscript = [], wcalls = [], closed = False, close_result = None,
      remain = [], wremain = [], resp = False, req = False, chunkLen = 0, pool = None,
      eos = False, reading = False, destroy = False\<rparr>"

definition ping :: "byte list" where
  "ping = [112, 105, 110, 103]"

definition env0 :: Env where
  "env0 = \<lparr>buffersize = 8, newHTTPReplyParser = (\<lambda>fed x. (x = LF, None)),
            newHTTPRequestParser = (\<lambda>fed x. (x = LF, None)),
            buildHTTPResponse = [72, 84, 84, 80]\<rparr>"

definition rawconn :: "revent list \<Rightarrow> Conn" where
  "rawconn evs = \<lparr>inbound = evs, wscript = [], wcalls = [], closed = False, close_result = None\<rparr>"

definition GET :: "byte list" where
  "GET = [71, 69, 84]"

definition delayed :: "byte list \<Rightarrow> nat \<Rightarrow> DelayConn" where
  "delayed buf n =
     \<lparr>inbound = [], wscript = [], wcalls = [], closed = False, close_result = None,
      wbuf = buf, off = n, started = False, destroyed = False, spawned = 0, signals = 0\<rparr>"

definition zero_chunk :: "byte list" where
  "zero_chunk = [48, 13, 10, 13, 10]"

text \<open>
  Two pools, for the examples: one that accepts every framer, one that is full. A pooled
  framer is \<open>framer\<close> with a pool reference.
\<close>

definition Put_accept :: "ObfsConn list \<Rightarrow> ObfsConn \<Rightarrow> err option \<times> ObfsConn list" where
  "Put_accept P c = (None, P @ [c])"

definition Put_reject :: "ObfsConn list \<Rightarrow> ObfsConn \<Rightarrow> err option \<times> ObfsConn list" where
  "Put_reject P c = (Some (PoolErr 0), P)"

definition pooled :: "revent list \<Rightarrow> ObfsConn" where
  "pooled evs = (framer evs)\<lparr>pool := Some 1\<rparr>"

text \<open>The digits of a chunk-length line of value \<open>2\<^sup>6\<^sup>3\<close>, one more than the largest \<^verbatim>\<open>int\<close>.\<close>

definition huge_line :: "byte list" where
  "huge_line = [56, 48, 48, 48, 48, 48, 48, 48, 48, 48, 48, 48, 48, 48, 48, 48]"

text \<open>What the accept handler peeks from a first segment \<open>d\<close>, and what it leaves.\<close>

definition peeked :: "Env \<Rightarrow> byte list \<Rightarrow> byte list" where
  "peeked E d = take (buffersize E) d"

definition unpeeked :: "Env \<Rightarrow> byte list \<Rightarrow> revent list \<Rightarrow> revent list" where
  "unpeeked E d evs = (if length d \<le> buffersize E then evs else Data (drop (buffersize E) d) # evs)"

section \<open>The frame that Write emits\<close>

lemma length_sprintf_x: "n < 16 ^ k \<Longrightarrow> 0 < k \<Longrightarrow> length (sprintf_x n) \<le> k"
proof (induction n arbitrary: k rule: sprintf_x.induct)
  case (1 n)
  show ?case
  proof (cases "n < 16")
    case True
    with "1.prems" show ?thesis by (simp add: sprintf_x.simps)
  next
    case False
    then obtain j where k: "k = Suc j" and j: "0 < j"
      using "1.prems" by (cases k; cases "k - 1") auto
    from "1.prems" k have "n div 16 < 16 ^ j"
      by (simp add: less_mult_imp_div_less mult.commute)
    with "1.IH" False j have "length (sprintf_x (n div 16)) \<le> j" by simp
    with False k show ?thesis by (simp add: sprintf_x.simps [of n])
  qed
qed

lemma sprintf_x_nonempty: "sprintf_x n \<noteq> []"
  by (simp add: sprintf_x.simps [of n])

lemma wbuf_frame:
  assumes h: "length hdr \<le> 14"
  shows "take (length hdr + length b + 2)
           (((hdr @ b @ replicate (16 - length hdr) z)[length hdr + length b := x])
              [length hdr + length b + 1 := y]) = hdr @ b @ [x, y]"
proof -
  define m where "m = 14 - length hdr"
  have m: "16 - length hdr = Suc (Suc m)"
    using h by (simp add: m_def)
  have "hdr @ b @ replicate (16 - length hdr) z = (hdr @ b) @ z # z # replicate m z"
    by (simp add: m)
  then show ?thesis
    by (simp add: list_update_append)
qed

lemma ObfsConn_Write_eq:
  assumes "length b < 2 ^ 48"
  shows "ObfsConn_Write c b =
     (case RemainConn_Write c (frame b) of
        (_, e, c') \<Rightarrow> Return (if e \<noteq> None then 0 else length b, e, c'))"
proof -
  define hdr where "hdr = sprintf_x (length b) @ [CR, LF]"
  define n where "n = length b"
  have "length b < (16::nat) ^ 12" using assms by simp
  then have "length (sprintf_x (length b)) \<le> 12" by (rule length_sprintf_x) simp
  then have h: "length hdr \<le> 14" by (simp add: hdr_def)
  have fr: "frame b = hdr @ b @ [CR, LF]" by (simp add: frame_def hdr_def)
  have c1: "copy (replicate (n + 16) 0) (n + 16) hdr = (hdr @ replicate (n + 16 - length hdr) 0, length hdr)"
    using h by (simp add: copy_def Let_def min_def)
  have c2: "copy (replicate (n + 16 - length hdr) 0) (n + 16 - length hdr) b = (b @ replicate (16 - length hdr) 0, n)"
  proof -
    have "min (n + 16 - length hdr) (length b) = n" "n + 16 - length hdr - n = 16 - length hdr"
      using h by (simp_all add: n_def)
    then show ?thesis by (simp add: copy_def Let_def n_def)
  qed
  have lt: "length hdr + n < length (hdr @ b @ replicate (16 - length hdr) (0::byte))"
       "length hdr + n + 1 < length (hdr @ b @ replicate (16 - length hdr) (0::byte))"
    using h by (simp_all add: n_def)
  have tk: "take (length hdr + n + 2)
           (((hdr @ b @ replicate (16 - length hdr) 0)[length hdr + n := CR])
              [length hdr + n + 1 := LF]) = frame b"
    using wbuf_frame [OF h, of b 0 CR LF] by (simp add: fr n_def)
  have "ObfsConn_Write c b = (let 
          wbuf = replicate (n + 16) (0 :: byte);
          (wbuf, len) = copy wbuf (n + 16) hdr;
          wbuf = take len wbuf @ fst (copy (drop len wbuf) (length wbuf - len) b);
          len = len + n
      in if \<not> len < length wbuf then Panic
         else if \<not> len + 1 < length wbuf then Panic
         else
           (let wbuf = (wbuf[len := CR])[len + 1 := LF]
            in case RemainConn_Write c (take (len + 2) wbuf) of
                 (_, e, c') \<Rightarrow> Return (if e \<noteq> None then 0 else n, e, c')))"
    unfolding ObfsConn_Write_def hdr_def n_def by (simp add: Let_def)
  also have "\<dots> = (let wbuf = hdr @ b @ replicate (16 - length hdr) 0; len = length hdr + n
      in if \<not> len < length wbuf then Panic
         else if \<not> len + 1 < length wbuf then Panic
         else
           (let wbuf = (wbuf[len := CR])[len + 1 := LF]
            in case RemainConn_Write c (take (len + 2) wbuf) of
                 (_, e, c') \<Rightarrow> Return (if e \<noteq> None then 0 else n, e, c')))"
    unfolding Let_def c1 prod.case by (simp add: c2)
  also have "\<dots> = (case RemainConn_Write c (frame b) of
        (_, e, c') \<Rightarrow> Return (if e \<noteq> None then 0 else length b, e, c'))"
    unfolding Let_def n_def using lt [unfolded n_def] tk [unfolded n_def]
    by (simp only: not_True_eq_False if_False)
  finally show ?thesis .
qed

lemma frame_nil: "frame [] = [48, 13, 10, 13, 10]"
  by (simp add: frame_def sprintf_x.simps hexdigit_def CR_def LF_def)

section \<open>Hexadecimal lengths\<close>

lemma less_16_cases:
  "d < 16 \<Longrightarrow> d = 0 \<or> d = 1 \<or> d = 2 \<or> d = 3 \<or> d = 4 \<or> d = 5 \<or> d = 6 \<or> d = 7 \<or> d = 8 \<or>
     d = 9 \<or> d = 10 \<or> d = 11 \<or> d = 12 \<or> d = 13 \<or> d = 14 \<or> d = (15::nat)"
  by arith

lemma hexdigit_facts:
  assumes "d < 16"
  shows "isHex (hexdigit d)" and "digitval (hexdigit d) = d"
  using less_16_cases [OF assms]
  by (auto simp: hexdigit_def isHex_def digitval_def)

lemma isHex_CR_LF [simp]: "\<not> isHex CR" "\<not> isHex LF" "CR \<noteq> LF"
  by (simp_all add: isHex_def CR_def LF_def)

lemma hexval_snoc: "hexval (s @ [c]) = hexval s * 16 + digitval c"
  by (simp add: hexval_def)

lemma hexval_sprintf_x: "hexval (sprintf_x n) = n"
proof (induction n rule: sprintf_x.induct)
  case (1 n)
  show ?case
  proof (cases "n < 16")
    case True
    then show ?thesis
      by (simp add: sprintf_x.simps [of n] hexval_def hexdigit_facts)
  next
    case False
    with 1 have "hexval (sprintf_x (n div 16)) = n div 16" by simp
    with False show ?thesis
      by (simp add: sprintf_x.simps [of n] hexval_snoc hexdigit_facts)
  qed
qed

lemma isHex_sprintf_x: "list_all isHex (sprintf_x n)"
proof (induction n rule: sprintf_x.induct)
  case (1 n)
  then show ?case
    by (cases "n < 16") (simp_all add: sprintf_x.simps [of n] hexdigit_facts)
qed

section \<open>Reading from the stream\<close>

lemma RemainConn_Read_stream:
  assumes "RemainConn_Read c b k = (m, None, b', c')"
  shows "b' = take m (unread c) @ drop m b" and "unread c' = drop m (unread c)"
    and "m \<le> length (unread c)" and "m \<le> k"
    and "c' = c\<lparr>remain := remain c', inbound := inbound c'\<rparr>"
    and "segments_ok (inbound c) \<Longrightarrow> segments_ok (inbound c')"
  using assms
  by (auto simp: RemainConn_Read_def Conn_Read_def copy_def unread_def Let_def segments_ok_def
      split: if_splits list.splits revent.splits)

lemma RemainConn_Read_some:
  assumes "unread c \<noteq> []" "segments_ok (inbound c)" "0 < k"
  shows "\<exists>m b' c'. RemainConn_Read c b k = (m, None, b', c') \<and> 0 < m"
  using assms
  by (auto simp: RemainConn_Read_def Conn_Read_def copy_def unread_def Let_def segments_ok_def
      split: if_splits list.splits revent.splits)


lemma doRead_chunk_mode: "\<not> req c \<Longrightarrow> \<not> resp c \<Longrightarrow> doRead E c b k = RemainConn_Read c b k"
  by (simp add: doRead_def)

lemma RemainConn_Read_byte:
  assumes "unread c = x # xs" "segments_ok (inbound c)" "b \<noteq> []"
  shows "\<exists>r' i'. RemainConn_Read c b 1 = (1, None, x # tl b, c\<lparr>remain := r', inbound := i'\<rparr>) \<and>
           r' @ stream_of i' = xs \<and> segments_ok i'"
proof -
  from assms obtain m b' c' where r: "RemainConn_Read c b 1 = (m, None, b', c')" and m: "0 < m"
    using RemainConn_Read_some [of c 1 b] by auto
  note s = RemainConn_Read_stream [OF r]
  from s(4) m have m1: "m = 1" by simp
  from s(1) assms have b': "b' = x # tl b" by (simp add: m1 drop_Suc)
  from s(2) assms have "unread c' = xs" by (simp add: m1)
  then have u: "remain c' @ stream_of (inbound c') = xs" by (simp add: unread_def)
  from r s(5) have "RemainConn_Read c b 1 = (1, None, x # tl b, c\<lparr>remain := remain c', inbound := inbound c'\<rparr>)"
    by (simp add: m1 b')
  with u s(6) assms(2) show ?thesis by blast
qed

lemma readChunkLenStr_line:
  assumes "\<not> req c" "\<not> resp c" "segments_ok (inbound c)" "unread c = hs @ x # rest"
    "list_all (\<lambda>h. isHex h \<or> h = CR) hs" "\<not> isHex x" "x \<noteq> CR" "b \<noteq> []"
  shows "\<exists>r' i'. readChunkLenStr E c b s =
            (1, (if x = LF then None else Some (UnexpectedLengthChar x)),
             s @ filter isHex hs, x # tl b, c\<lparr>remain := r', inbound := i'\<rparr>) \<and>
           r' @ stream_of i' = rest \<and> segments_ok i'"
  using assms
proof (induction hs arbitrary: c b s)
  case Nil
  then obtain r' i' where r: "RemainConn_Read c b 1 = (1, None, x # tl b, c\<lparr>remain := r', inbound := i'\<rparr>)"
    and c': "r' @ stream_of i' = rest" "segments_ok i'"
    using RemainConn_Read_byte [of c x rest b] by auto
  from r Nil.prems have "readChunkLenStr E c b s =
      (1, (if x = LF then None else Some (UnexpectedLengthChar x)), s, x # tl b, c\<lparr>remain := r', inbound := i'\<rparr>)"
    by (subst readChunkLenStr.simps) (simp add: doRead_chunk_mode)
  with c' show ?case by auto
next
  case (Cons h hs)
  then obtain r1 i1 where r: "RemainConn_Read c b 1 = (1, None, h # tl b, c\<lparr>remain := r1, inbound := i1\<rparr>)"
    and c1: "r1 @ stream_of i1 = hs @ x # rest" "segments_ok i1"
    using RemainConn_Read_byte [of c h "hs @ x # rest" b] by auto
  let ?c1 = "c\<lparr>remain := r1, inbound := i1\<rparr>"
  from Cons.prems have hs: "list_all (\<lambda>h. isHex h \<or> h = CR) hs" and h: "isHex h \<or> h = CR"
    by simp_all
  let ?s = "if isHex h then s @ [h] else s"
  have "\<exists>r' i'. readChunkLenStr E ?c1 (h # tl b) ?s =
            (1, (if x = LF then None else Some (UnexpectedLengthChar x)),
             ?s @ filter isHex hs, x # tl (h # tl b), ?c1\<lparr>remain := r', inbound := i'\<rparr>) \<and>
           r' @ stream_of i' = rest \<and> segments_ok i'"
  proof (rule Cons.IH)
    show "\<not> req ?c1" "\<not> resp ?c1" using Cons.prems(1,2) by simp_all
    show "segments_ok (inbound ?c1)" using c1(2) by simp
    show "unread ?c1 = hs @ x # rest" using c1(1) by (simp add: unread_def)
    show "list_all (\<lambda>h. isHex h \<or> h = CR) hs" by (rule hs)
    show "\<not> isHex x" "x \<noteq> CR" by (rule Cons.prems)+
    show "h # tl b \<noteq> []" by simp
  qed
  then obtain r' i' where l: "readChunkLenStr E ?c1 (h # tl b) ?s =
            (1, (if x = LF then None else Some (UnexpectedLengthChar x)),
             ?s @ filter isHex hs, x # tl b, c\<lparr>remain := r', inbound := i'\<rparr>)"
    and c': "r' @ stream_of i' = rest" "segments_ok i'"
    by auto
  have "readChunkLenStr E c b s = readChunkLenStr E ?c1 (h # tl b) ?s"
    using h r by (subst readChunkLenStr.simps) (auto simp add: doRead_chunk_mode Cons.prems(1,2))
  with l have "readChunkLenStr E c b s =
      (1, (if x = LF then None else Some (UnexpectedLengthChar x)),
             ?s @ filter isHex hs, x # tl b, c\<lparr>remain := r', inbound := i'\<rparr>)"
    by simp
  moreover have "?s @ filter isHex hs = s @ filter isHex (h # hs)" by simp
  ultimately show ?case using c' by auto
qed


lemma RemainConn_Read_noerr:
  assumes "unread c \<noteq> []"
  shows "\<exists>m b' c'. RemainConn_Read c b k = (m, None, b', c')"
  using assms
  by (auto simp: RemainConn_Read_def Conn_Read_def copy_def unread_def Let_def
      split: if_splits list.splits revent.splits)

lemma ReadFull_stream:
  assumes "n \<le> len" "len - n \<le> length (unread c)"
  shows "\<exists>r' i'. ReadFull c len n None = (len, None, c\<lparr>remain := r', inbound := i'\<rparr>) \<and>
           r' @ stream_of i' = drop (len - n) (unread c)"
  using assms
proof (induction c arbitrary: n rule: measure_induct_rule [where f = pending_size])
  case (less c)
  show ?case
  proof (cases "n < len")
    case False
    with less.prems have "n = len" by simp
    then have "ReadFull c len n None = (len, None, c\<lparr>remain := remain c, inbound := inbound c\<rparr>)"
      by (subst ReadFull.simps) simp
    moreover have "remain c @ stream_of (inbound c) = drop (len - n) (unread c)"
      by (simp add: unread_def \<open>n = len\<close>)
    ultimately show ?thesis by blast
  next
    case True
    with less.prems have ne: "unread c \<noteq> []" by auto
    let ?buf = "replicate (len - n) (0::byte)"
    from RemainConn_Read_noerr [OF ne] obtain m b' c1
      where r: "RemainConn_Read c ?buf (len - n) = (m, None, b', c1)" by blast
    note s = RemainConn_Read_stream [OF r]
    from True have k: "0 < len - n" by simp
    from RemainConn_Read_pending(2) [OF r k] have dec: "pending_size c1 < pending_size c" by simp
    from s(4) less.prems True have n': "n + m \<le> len" by simp
    from s(2) less.prems s(3) have u: "len - (n + m) \<le> length (unread c1)" by simp
    from less.IH [OF dec n' u] obtain r' i'
      where f: "ReadFull c1 len (n + m) None = (len, None, c1\<lparr>remain := r', inbound := i'\<rparr>)"
        and d: "r' @ stream_of i' = drop (len - (n + m)) (unread c1)"
      by blast
    have c1: "c1\<lparr>remain := r', inbound := i'\<rparr> = c\<lparr>remain := r', inbound := i'\<rparr>"
      by (subst s(5)) simp
    have "ReadFull c len n None = ReadFull c1 len (n + m) None"
      using True r by (subst ReadFull.simps) simp
    with f c1 have "ReadFull c len n None = (len, None, c\<lparr>remain := r', inbound := i'\<rparr>)" by simp
    moreover from s(4) have "m + (len - (n + m)) = len - n" by simp
    with d s(2) have "r' @ stream_of i' = drop (len - n) (unread c)"
      by (simp add: add.commute)
    ultimately show ?thesis by blast
  qed
qed

section \<open>Claims about writing\<close>

lemma RemainConn_Write_wcalls:
  assumes "RemainConn_Write c x = (n, e, c')"
  shows "wcalls c' = wcalls c @ [wremain c @ x]"
  using assms
  by (auto simp: RemainConn_Write_def Conn_Write_def split: if_splits list.splits wevent.splits)

text \<open>
  C2. \<^verbatim>\<open>ObfsConn.Write(b)\<close> hands the wrapped \<^verbatim>\<open>RemainConn\<close> exactly one buffer, the
  frame of \<open>b\<close>: the lowercase hexadecimal length, CR LF, the bytes of \<open>b\<close>, CR LF.
  On the \<^verbatim>\<open>net.Conn\<close> below this is one write call, of the queued \<open>wremain\<close> (empty
  once the handshake header has gone out) followed by the frame. For \<open>nil\<close> or an empty
  slice the frame is the five bytes \<open>0 CR LF CR LF\<close>. The bound on the length is what
  a Go slice on a 64-bit platform satisfies; it keeps the two terminator bytes inside
  the \<open>n + 16\<close> bytes of \<open>wbuf\<close>.
\<close>

theorem ObfsConn_Write_one_frame:
  assumes "length b < 2 ^ 48"
  shows "ObfsConn_Write c b =
           (case RemainConn_Write c (sprintf_x (length b) @ [CR, LF] @ b @ [CR, LF]) of
              (_, e, c') \<Rightarrow> Return (if e \<noteq> None then 0 else length b, e, c')) \<and>
         (\<exists>n e c'. ObfsConn_Write c b = Return (n, e, c') \<and>
            wcalls c' = wcalls c @ [wremain c @ sprintf_x (length b) @ [CR, LF] @ b @ [CR, LF]]) \<and>
         (\<exists>n e c'. ObfsConn_Write c [] = Return (n, e, c') \<and>
            wcalls c' = wcalls c @ [wremain c @ [48, 13, 10, 13, 10]])"
proof (intro conjI)
  show eq: "ObfsConn_Write c b =
           (case RemainConn_Write c (sprintf_x (length b) @ [CR, LF] @ b @ [CR, LF]) of
              (_, e, c') \<Rightarrow> Return (if e \<noteq> None then 0 else length b, e, c'))"
    using ObfsConn_Write_eq [OF assms, of c] by (simp add: frame_def)
  obtain n e c' where r: "RemainConn_Write c (sprintf_x (length b) @ [CR, LF] @ b @ [CR, LF]) = (n, e, c')"
    by (metis prod_cases3)
  with eq RemainConn_Write_wcalls [OF r]
  show "\<exists>n e c'. ObfsConn_Write c b = Return (n, e, c') \<and>
            wcalls c' = wcalls c @ [wremain c @ sprintf_x (length b) @ [CR, LF] @ b @ [CR, LF]]"
    by simp
  obtain n0 e0 c0 where r0: "RemainConn_Write c (frame []) = (n0, e0, c0)"
    by (metis prod_cases3)
  with ObfsConn_Write_eq [of "[]" c] RemainConn_Write_wcalls [OF r0]
  show "\<exists>n e c'. ObfsConn_Write c [] = Return (n, e, c') \<and>
            wcalls c' = wcalls c @ [wremain c @ [48, 13, 10, 13, 10]]"
    by (simp add: frame_nil)
qed

theorem ObfsConn_Write_one_frame_witness:
  "length ping < 2 ^ 48 \<and>
   ObfsConn_Write (framer []) ping =
     Return (4, None, (framer [])\<lparr>wcalls := [[52, 13, 10, 112, 105, 110, 103, 13, 10]]\<rparr>)"
  using ObfsConn_Write_one_frame [of ping "framer []"]
  by (simp add: ping_def framer_def RemainConn_Write_def Conn_Write_def sprintf_x.simps
      hexdigit_def CR_def LF_def)

text \<open>
  C10. With bytes queued in \<open>wremain\<close>, \<^verbatim>\<open>RemainConn.Write(b)\<close> issues one underlying
  write of \<open>wremain\<close> followed by \<open>b\<close>. If that write fails, the error is returned with
  \<open>n = 0\<close> and \<open>wremain\<close> stays as it was; if it succeeds, \<open>n = len(b)\<close> and \<open>wremain\<close> is
  cleared.
\<close>

theorem RemainConn_Write_keeps_wremain_on_error:
  assumes "wremain c \<noteq> []" and "RemainConn_Write c b = (n, e, c')"
  shows "wcalls c' = wcalls c @ [wremain c @ b] \<and>
         e = fst (snd (Conn_Write c (wremain c @ b))) \<and>
         (e \<noteq> None \<longrightarrow> n = 0 \<and> wremain c' = wremain c) \<and>
         (e = None \<longrightarrow> n = length b \<and> wremain c' = [])"
  using assms
  by (auto simp: RemainConn_Write_def Conn_Write_def split: if_splits list.splits wevent.splits)

theorem RemainConn_Write_keeps_wremain_on_error_witness:
  "wremain ((framer [])\<lparr>wscript := [WFail 0 (ConnErr 1)], wremain := ping\<rparr>) \<noteq> [] \<and>
   RemainConn_Write ((framer [])\<lparr>wscript := [WFail 0 (ConnErr 1)], wremain := ping\<rparr>) [1, 2] =
     (0, Some (ConnErr 1), (framer [])\<lparr>wscript := [], wcalls := [ping @ [1, 2]], wremain := ping\<rparr>) \<and>
   wremain (snd (snd (RemainConn_Write
       ((framer [])\<lparr>wscript := [WFail 0 (ConnErr 1)], wremain := ping\<rparr>) [1, 2]))) = ping"
  using RemainConn_Write_keeps_wremain_on_error
    [of "(framer [])\<lparr>wscript := [WFail 0 (ConnErr 1)], wremain := ping\<rparr>" "[1, 2]" 0
      "Some (ConnErr 1)" "(framer [])\<lparr>wscript := [], wcalls := [ping @ [1, 2]], wremain := ping\<rparr>"]
  by (simp add: ping_def framer_def RemainConn_Write_def Conn_Write_def)

section \<open>Claims about the chunk-length header\<close>

lemma LF_neq_CR [simp]: "LF \<noteq> CR"
  by (simp add: CR_def LF_def)

lemma Conn_Read_first_byte:
  assumes "remain c = []" "inbound c = Data (x # d) # evs" "b \<noteq> []"
  shows "RemainConn_Read c b 1 =
           (1, None, x # tl b, c\<lparr>inbound := (if d = [] then evs else Data d # evs)\<rparr>)"
  using assms
  by (cases b) (auto simp: RemainConn_Read_def Conn_Read_def Let_def)

lemma readChunkLenStr_in_segment:
  assumes "\<not> req c" "\<not> resp c" "remain c = []" "inbound c = Data (hs @ d) # evs" "hs \<noteq> []"
    "list_all (\<lambda>h. isHex h \<or> h = CR) hs" "b \<noteq> []"
  shows "readChunkLenStr E c b s =
           readChunkLenStr E (c\<lparr>inbound := (if d = [] then evs else Data d # evs)\<rparr>)
             (last hs # tl b) (s @ filter isHex hs)"
  using assms
proof (induction hs arbitrary: c b s)
  case Nil
  then show ?case by simp
next
  case (Cons h hs)
  let ?c1 = "c\<lparr>inbound := (if hs @ d = [] then evs else Data (hs @ d) # evs)\<rparr>"
  let ?s = "if isHex h then s @ [h] else s"
  from Cons.prems have r: "RemainConn_Read c b 1 = (1, None, h # tl b, ?c1)"
    by (intro Conn_Read_first_byte) simp_all
  from Cons.prems have h: "isHex h \<or> h = CR" by simp
  have step: "readChunkLenStr E c b s = readChunkLenStr E ?c1 (h # tl b) ?s"
    using h r by (subst readChunkLenStr.simps) (auto simp add: doRead_chunk_mode Cons.prems(1,2))
  show ?case
  proof (cases "hs = []")
    case True
    with step show ?thesis by simp
  next
    case False
    have "readChunkLenStr E ?c1 (h # tl b) ?s =
           readChunkLenStr E (?c1\<lparr>inbound := (if d = [] then evs else Data d # evs)\<rparr>)
             (last hs # tl (h # tl b)) (?s @ filter isHex hs)"
    proof (rule Cons.IH)
      show "\<not> req ?c1" "\<not> resp ?c1" "remain ?c1 = []" using Cons.prems(1,2,3) by simp_all
      show "inbound ?c1 = Data (hs @ d) # evs" using False by simp
      show "hs \<noteq> []" by (rule False)
      show "list_all (\<lambda>h. isHex h \<or> h = CR) hs" using Cons.prems by simp
      show "h # tl b \<noteq> []" by simp
    qed
    with step False show ?thesis by simp
  qed
qed

lemma readTrailer_none: "chunkLen c = 0 \<or> 2 < chunkLen c \<Longrightarrow> readTrailer E c b = Return (None, b, c)"
  by (auto simp: readTrailer_def)

lemma hexval_zeros: "list_all (\<lambda>h. h = 48) s \<Longrightarrow> hexval s = 0"
  by (induction s rule: rev_induct) (simp_all add: hexval_snoc, simp_all add: hexval_def digitval_def)


lemma readChunkLenStr_segments:
  assumes "\<not> req c" "\<not> resp c" "remain c = []" "inbound c = map Data ds @ evs"
    "list_all (\<lambda>d. d \<noteq> [] \<and> list_all (\<lambda>h. isHex h \<or> h = CR) d) ds" "b \<noteq> []"
  shows "\<exists>b'. b' \<noteq> [] \<and>
           readChunkLenStr E c b s =
             readChunkLenStr E (c\<lparr>inbound := evs\<rparr>) b' (s @ filter isHex (concat ds))"
  using assms
proof (induction ds arbitrary: c b s)
  case Nil
  then have "c\<lparr>inbound := evs\<rparr> = c" by simp
  with Nil.prems show ?case by auto
next
  case (Cons d ds)
  let ?c1 = "c\<lparr>inbound := map Data ds @ evs\<rparr>"
  from Cons.prems have d: "d \<noteq> []" "list_all (\<lambda>h. isHex h \<or> h = CR) d" by simp_all
  from Cons.prems d readChunkLenStr_in_segment [of c d "[]" "map Data ds @ evs" b E s]
  have 1: "readChunkLenStr E c b s = readChunkLenStr E ?c1 (last d # tl b) (s @ filter isHex d)"
    by simp
  have "\<exists>b'. b' \<noteq> [] \<and>
           readChunkLenStr E ?c1 (last d # tl b) (s @ filter isHex d) =
             readChunkLenStr E (?c1\<lparr>inbound := evs\<rparr>) b' ((s @ filter isHex d) @ filter isHex (concat ds))"
    using Cons.prems by (intro Cons.IH) simp_all
  with 1 show ?case by auto
qed

lemma readChunkLenStr_short:
  assumes "\<not> req c" "\<not> resp c" "remain c = []" "inbound c = Data [] # evs"
  shows "readChunkLenStr E c b s = (0, Some ShortRead, s, b, c\<lparr>inbound := evs\<rparr>)"
  using assms
  by (subst readChunkLenStr.simps)
    (simp add: doRead_chunk_mode RemainConn_Read_def Conn_Read_def)

text \<open>
  C5. After the handshake, with no chunk open, the reader parses a chunk-length line
  byte by byte. A byte that is neither one of \<open>0-9a-f\<close>, nor CR, nor LF ends the read
  with the length-character error; an LF with no digit before it ends it with the
  incorrect-chunk error; a read of zero bytes with no error ends it with the short-read
  error. The first two parts hold however the stream is cut into segments.
\<close>

theorem chunk_header_framing_errors:
  assumes "\<not> req c" "\<not> resp c" "chunkLen c = 0" "0 < len" "b \<noteq> []"
  shows "(segments_ok (inbound c) \<and> unread c = hs @ x # rest \<and>
          list_all (\<lambda>h. isHex h \<or> h = CR) hs \<and> \<not> isHex x \<and> x \<noteq> CR \<and> x \<noteq> LF \<longrightarrow>
            (\<exists>r' i'. readInLock E c b len =
                        Return (1, Some (UnexpectedLengthChar x), x # tl b,
                                c\<lparr>remain := r', inbound := i'\<rparr>) \<and>
                      r' @ stream_of i' = rest)) \<and>
         (segments_ok (inbound c) \<and> unread c = hs @ LF # rest \<and> list_all (\<lambda>h. h = CR) hs \<longrightarrow>
            (\<exists>r' i'. readInLock E c b len =
                        Return (1, Some IncorrectChunked, LF # tl b,
                                c\<lparr>remain := r', inbound := i'\<rparr>) \<and>
                      r' @ stream_of i' = rest)) \<and>
         (remain c = [] \<and> inbound c = map Data ds @ Data [] # evs \<and>
          list_all (\<lambda>d. d \<noteq> [] \<and> list_all (\<lambda>h. isHex h \<or> h = CR) d) ds \<longrightarrow>
            (\<exists>b'. readInLock E c b len = Return (0, Some ShortRead, b', c\<lparr>inbound := evs\<rparr>)))"
proof (intro conjI impI)
  assume a: "segments_ok (inbound c) \<and> unread c = hs @ x # rest \<and>
          list_all (\<lambda>h. isHex h \<or> h = CR) hs \<and> \<not> isHex x \<and> x \<noteq> CR \<and> x \<noteq> LF"
  with assms readChunkLenStr_line [of c hs x rest b E "[]"]
  obtain r' i' where "readChunkLenStr E c b [] =
            (1, Some (UnexpectedLengthChar x), filter isHex hs, x # tl b,
             c\<lparr>remain := r', inbound := i'\<rparr>)" "r' @ stream_of i' = rest"
    by auto
  with assms show "\<exists>r' i'. readInLock E c b len =
                        Return (1, Some (UnexpectedLengthChar x), x # tl b,
                                c\<lparr>remain := r', inbound := i'\<rparr>) \<and>
                      r' @ stream_of i' = rest"
    by (auto simp add: readInLock_def readTrailer_none readChunkLen_def)
next
  assume a: "segments_ok (inbound c) \<and> unread c = hs @ LF # rest \<and> list_all (\<lambda>h. h = CR) hs"
  then have hs: "list_all (\<lambda>h. isHex h \<or> h = CR) hs" "filter isHex hs = []"
    by (auto simp: list_all_iff filter_empty_conv)
  with a assms readChunkLenStr_line [of c hs LF rest b E "[]"]
  obtain r' i' where "readChunkLenStr E c b [] =
            (1, None, [], LF # tl b, c\<lparr>remain := r', inbound := i'\<rparr>)" "r' @ stream_of i' = rest"
    by auto
  with assms show "\<exists>r' i'. readInLock E c b len =
                        Return (1, Some IncorrectChunked, LF # tl b,
                                c\<lparr>remain := r', inbound := i'\<rparr>) \<and>
                      r' @ stream_of i' = rest"
    by (auto simp add: readInLock_def readTrailer_none readChunkLen_def)
next
  assume a: "remain c = [] \<and> inbound c = map Data ds @ Data [] # evs \<and>
          list_all (\<lambda>d. d \<noteq> [] \<and> list_all (\<lambda>h. isHex h \<or> h = CR) d) ds"
  with assms readChunkLenStr_segments [of c ds "Data [] # evs" b E "[]"]
  obtain b' where "readChunkLenStr E c b [] =
      readChunkLenStr E (c\<lparr>inbound := Data [] # evs\<rparr>) b' (filter isHex (concat ds))"
    by auto
  moreover have "readChunkLenStr E (c\<lparr>inbound := Data [] # evs\<rparr>) b' (filter isHex (concat ds)) =
      (0, Some ShortRead, filter isHex (concat ds), b', c\<lparr>inbound := Data [] # evs, inbound := evs\<rparr>)"
    using assms a by (intro readChunkLenStr_short) simp_all
  ultimately show "\<exists>b'. readInLock E c b len = Return (0, Some ShortRead, b', c\<lparr>inbound := evs\<rparr>)"
    using assms by (simp add: readInLock_def readTrailer_none readChunkLen_def)
qed

theorem chunk_header_framing_errors_witness:
  "\<not> req (framer [Data [49, 103, 13, 10]]) \<and> \<not> resp (framer [Data [49, 103, 13, 10]]) \<and>
   chunkLen (framer [Data [49, 103, 13, 10]]) = 0 \<and> (0::nat) < 4 \<and> [0, 0, 0, 0 :: byte] \<noteq> [] \<and>
   segments_ok (inbound (framer [Data [49, 103, 13, 10]])) \<and>
   unread (framer [Data [49, 103, 13, 10]]) = [49] @ 103 # [13, 10] \<and>
   list_all (\<lambda>h. isHex h \<or> h = CR) [49] \<and> \<not> isHex 103 \<and> 103 \<noteq> CR \<and> 103 \<noteq> LF \<and>
   (\<exists>r' i'. readInLock env0 (framer [Data [49, 103, 13, 10]]) [0, 0, 0, 0] 4 =
      Return (1, Some (UnexpectedLengthChar 103), [103, 0, 0, 0],
              (framer [Data [49, 103, 13, 10]])\<lparr>remain := r', inbound := i'\<rparr>) \<and>
      r' @ stream_of i' = [13, 10])"
  using chunk_header_framing_errors
    [of "framer [Data [49, 103, 13, 10]]" 4 "[0, 0, 0, 0]" "[49]" 103 "[13, 10]" env0]
  by (simp add: framer_def segments_ok_def unread_def isHex_def CR_def LF_def)

section \<open>Claims about the end-of-stream marker and the round trip\<close>

lemma wrap64_id: "- (2 ^ 63) \<le> x \<Longrightarrow> x < 2 ^ 63 \<Longrightarrow> wrap64 x = x"
  by (simp add: wrap64_def)

lemma zero_digits:
  assumes "list_all (\<lambda>h. h = 48 \<or> h = CR) hs" "48 \<in> set hs"
  shows "filter isHex hs \<noteq> []" and "hexval (filter isHex hs) = 0"
proof -
  have h48: "isHex 48" by (simp add: isHex_def)
  with assms(2) show "filter isHex hs \<noteq> []" by (auto simp: filter_empty_conv)
  from assms(1) have "list_all (\<lambda>h. h = 48) (filter isHex hs)"
    by (auto simp: list_all_iff)
  then show "hexval (filter isHex hs) = 0" by (rule hexval_zeros)
qed

lemma readChunkLen_line:
  assumes "\<not> req c" "\<not> resp c" "chunkLen c = 0" "segments_ok (inbound c)"
    "unread c = hs @ LF # rest" "list_all (\<lambda>h. isHex h \<or> h = CR) hs" "b \<noteq> []"
    "filter isHex hs \<noteq> []" "int (hexval (filter isHex hs)) + 2 \<le> maxInt"
  shows "\<exists>r' i'. readChunkLen E c b =
            (1, None, LF # tl b,
             c\<lparr>remain := r', inbound := i', chunkLen := int (hexval (filter isHex hs)) + 2\<rparr>) \<and>
           r' @ stream_of i' = rest \<and> segments_ok i'"
proof -
  from assms readChunkLenStr_line [of c hs LF rest b E "[]"]
  obtain r' i' where l: "readChunkLenStr E c b [] =
            (1, None, filter isHex hs, LF # tl b, c\<lparr>remain := r', inbound := i'\<rparr>)"
    and s: "r' @ stream_of i' = rest" "segments_ok i'"
    by auto
  from assms(9) have p: "ParseInt16 (filter isHex hs) = Inr (int (hexval (filter isHex hs)))"
    and w: "wrap64 (int (hexval (filter isHex hs)) + 2) = int (hexval (filter isHex hs)) + 2"
    by (simp_all add: ParseInt16_def wrap64_id maxInt_def)
  from l assms(3,8) have "readChunkLen E c b =
            (1, None, LF # tl b,
             c\<lparr>remain := r', inbound := i', chunkLen := int (hexval (filter isHex hs)) + 2\<rparr>)"
    by (simp add: readChunkLen_def p w)
  with s show ?thesis by blast
qed

text \<open>
  C3. A \<^verbatim>\<open>Read\<close> on a framer past the handshake, with no chunk open, whose stream
  starts with a chunk-length line of value zero (zeros, at least one, CRs skipped, then
  LF) followed by two more bytes: the reader consumes the line and exactly those two
  bytes, leaves the rest of the stream, sets \<open>eos\<close>, and returns zero bytes with the
  end-of-stream error. This holds however the stream is cut into segments.
\<close>

theorem zero_length_chunk_ends_stream:
  assumes "\<not> destroy c" "\<not> reading c" "\<not> req c" "\<not> resp c" "chunkLen c = 0"
    and "0 < len" "b \<noteq> []"
    and "segments_ok (inbound c)" "unread c = hs @ LF # t1 # t2 # rest"
    and "list_all (\<lambda>h. h = 48 \<or> h = CR) hs" "48 \<in> set hs"
  shows "\<exists>r' i'. ObfsConn_Read E c b len =
            Return (0, Some ReadFromClosedObfs, LF # tl b,
                    c\<lparr>remain := r', inbound := i', chunkLen := 2, eos := True,
                       reading := False\<rparr>) \<and>
           r' @ stream_of i' = rest"
proof -
  let ?c = "c\<lparr>reading := True\<rparr>"
  from assms(10) have hs: "list_all (\<lambda>h. isHex h \<or> h = CR) hs"
    by (auto simp: list_all_iff isHex_def)
  note z = zero_digits [OF assms(10,11)]
  have "\<exists>r' i'. readChunkLen E ?c b =
            (1, None, LF # tl b,
             ?c\<lparr>remain := r', inbound := i', chunkLen := int (hexval (filter isHex hs)) + 2\<rparr>) \<and>
           r' @ stream_of i' = t1 # t2 # rest \<and> segments_ok i'"
    using assms hs z by (intro readChunkLen_line) (simp_all add: unread_def maxInt_def)
  then obtain r1 i1 where h: "readChunkLen E ?c b =
            (1, None, LF # tl b, ?c\<lparr>remain := r1, inbound := i1, chunkLen := 2\<rparr>)"
    and s1: "r1 @ stream_of i1 = t1 # t2 # rest"
    by (auto simp: z)
  let ?c1 = "?c\<lparr>remain := r1, inbound := i1, chunkLen := 2\<rparr>"
  have "\<exists>r' i'. ReadFull ?c1 2 0 None = (2, None, ?c1\<lparr>remain := r', inbound := i'\<rparr>) \<and>
           r' @ stream_of i' = drop (2 - 0) (unread ?c1)"
    using s1 by (intro ReadFull_stream) (simp_all add: unread_def)
  then obtain r2 i2 where f: "ReadFull ?c1 2 0 None = (2, None, ?c1\<lparr>remain := r2, inbound := i2\<rparr>)"
    and s2: "r2 @ stream_of i2 = rest"
    using s1 by (auto simp: unread_def)
  from assms h f have "ObfsConn_Read E c b len =
            Return (0, Some ReadFromClosedObfs, LF # tl b,
                    c\<lparr>remain := r2, inbound := i2, chunkLen := 2, eos := True,
                       reading := False\<rparr>)"
    by (simp add: ObfsConn_Read_def readInLock_def readTrailer_none readChunk_def)
  with s2 show ?thesis by blast
qed

theorem zero_length_chunk_ends_stream_witness:
  "\<not> destroy (framer [Data zero_chunk, Data (frame ping)]) \<and>
   \<not> reading (framer [Data zero_chunk, Data (frame ping)]) \<and>
   \<not> req (framer [Data zero_chunk, Data (frame ping)]) \<and>
   \<not> resp (framer [Data zero_chunk, Data (frame ping)]) \<and>
   chunkLen (framer [Data zero_chunk, Data (frame ping)]) = 0 \<and> (0::nat) < 4 \<and>
   [0, 0, 0, 0 :: byte] \<noteq> [] \<and>
   segments_ok (inbound (framer [Data zero_chunk, Data (frame ping)])) \<and>
   unread (framer [Data zero_chunk, Data (frame ping)]) = [48, CR] @ LF # CR # LF # frame ping \<and>
   list_all (\<lambda>h. h = 48 \<or> h = CR) [48, CR] \<and> 48 \<in> set [48, CR] \<and>
   (\<exists>r' i'. ObfsConn_Read env0 (framer [Data zero_chunk, Data (frame ping)]) [0, 0, 0, 0] 4 =
      Return (0, Some ReadFromClosedObfs, [LF, 0, 0, 0],
              (framer [Data zero_chunk, Data (frame ping)])
                \<lparr>remain := r', inbound := i', chunkLen := 2, eos := True, reading := False\<rparr>) \<and>
      r' @ stream_of i' = frame ping)"
  using zero_length_chunk_ends_stream
    [of "framer [Data zero_chunk, Data (frame ping)]" 4 "[0, 0, 0, 0]" "[48, CR]" CR LF
      "frame ping" env0]
  by (simp add: framer_def segments_ok_def unread_def zero_chunk_def CR_def LF_def frame_def
      sprintf_x.simps ping_def)

lemma readChunkLen_frame:
  assumes "\<not> req c" "\<not> resp c" "chunkLen c = 0" "remain c = []"
    "inbound c = Data (frame p) # evs" "b \<noteq> []" "length p < 2 ^ 48"
  shows "readChunkLen E c b =
           (1, None, LF # tl b,
            c\<lparr>inbound := Data (p @ [CR, LF]) # evs, chunkLen := int (length p) + 2\<rparr>)"
proof -
  let ?ds = "sprintf_x (length p)"
  let ?c1 = "c\<lparr>inbound := Data (LF # p @ [CR, LF]) # evs\<rparr>"
  have hex: "list_all isHex ?ds" by (rule isHex_sprintf_x)
  then have f: "filter isHex ?ds = ?ds"
    by (simp add: list_all_iff)
  from hex have all: "list_all (\<lambda>h. isHex h \<or> h = CR) (?ds @ [CR])"
    by (simp add: list_all_iff)
  have "readChunkLenStr E c b [] =
           readChunkLenStr E (c\<lparr>inbound := (if LF # p @ [CR, LF] = [] then evs
                                               else Data (LF # p @ [CR, LF]) # evs)\<rparr>)
             (last (?ds @ [CR]) # tl b) ([] @ filter isHex (?ds @ [CR]))"
    using assms all by (intro readChunkLenStr_in_segment) (simp_all add: frame_def)
  then have 1: "readChunkLenStr E c b [] = readChunkLenStr E ?c1 (CR # tl b) ?ds"
    by (simp add: f)
  have r: "RemainConn_Read ?c1 (CR # tl b) 1 =
      (1, None, LF # tl (CR # tl b),
       ?c1\<lparr>inbound := (if p @ [CR, LF] = [] then evs else Data (p @ [CR, LF]) # evs)\<rparr>)"
    using assms by (intro Conn_Read_first_byte) simp_all
  have 2: "readChunkLenStr E ?c1 (CR # tl b) ?ds =
      (1, None, ?ds, LF # tl b, c\<lparr>inbound := Data (p @ [CR, LF]) # evs\<rparr>)"
    using r assms(1,2) by (subst readChunkLenStr.simps) (simp add: doRead_chunk_mode)
  have p: "ParseInt16 ?ds = Inr (int (length p))"
    using assms(7) by (simp add: ParseInt16_def hexval_sprintf_x maxInt_def)
  have w: "wrap64 (int (length p) + 2) = int (length p) + 2"
    using assms(7) by (simp add: wrap64_id)
  show ?thesis
    using assms(3) by (simp add: readChunkLen_def 1 2 p w sprintf_x_nonempty)
qed

lemma readInLock_frame_empty:
  assumes "\<not> req c" "\<not> resp c" "chunkLen c = 0" "remain c = []"
    "inbound c = Data (frame []) # evs" "b \<noteq> []" "0 < len"
  shows "\<exists>b' c'. readInLock E c b len = Return (0, Some ReadFromClosedObfs, b', c') \<and> eos c'"
proof -
  let ?c1 = "c\<lparr>inbound := Data ([] @ [CR, LF]) # evs, chunkLen := int (length ([]::byte list)) + 2\<rparr>"
  have h: "readChunkLen E c b = (1, None, LF # tl b, ?c1)"
    using assms by (intro readChunkLen_frame) simp_all
  have "\<exists>r' i'. ReadFull ?c1 2 0 None = (2, None, ?c1\<lparr>remain := r', inbound := i'\<rparr>) \<and>
           r' @ stream_of i' = drop (2 - 0) (unread ?c1)"
    using assms by (intro ReadFull_stream) (simp_all add: unread_def)
  then obtain r2 i2 where f: "ReadFull ?c1 2 0 None = (2, None, ?c1\<lparr>remain := r2, inbound := i2\<rparr>)"
    by auto
  from assms h f show ?thesis
    by (simp add: readInLock_def readTrailer_none readChunk_def)
qed

lemma readChunk_segment:
  assumes "\<not> req c" "\<not> resp c" "remain c = []" "inbound c = Data d # evs" "2 < chunkLen c"
    and k: "k = (if chunkLen c > int len then len else nat (chunkLen c))"
    and m: "m = min k (length d)"
  shows "readChunk E c b len n0 =
           Return (if chunkLen c - int m < 2 then int m - (2 - (chunkLen c - int m)) else int m,
                   None, take m d @ drop m b,
                   c\<lparr>inbound := (if m = length d then evs else Data (drop m d) # evs),
                      chunkLen := chunkLen c - int m\<rparr>)"
proof -
  have d: "doRead E c b k =
      (m, None, take m d @ drop m b, c\<lparr>inbound := (if m = length d then evs else Data (drop m d) # evs)\<rparr>)"
    using assms(1-4) m by (simp add: doRead_chunk_mode RemainConn_Read_def Conn_Read_def Let_def)
  have "readChunk E c b len n0 =
      (case doRead E c b k of
           (n, e, b', c') \<Rightarrow>
             if e \<noteq> None then Return (int n, e, b', c')
             else
               (let l = chunkLen c' - int n
                in Return (if l < 2 then int n - (2 - l) else int n, None, b',
                           c'\<lparr>chunkLen := l\<rparr>)))"
    using assms(5) unfolding readChunk_def k by simp
  then show ?thesis
    by (simp add: d Let_def)
qed

lemma readInLock_frame_payload:
  assumes "\<not> req c" "\<not> resp c" "chunkLen c = 0" "remain c = []"
    "inbound c = Data (frame p) # evs" "b \<noteq> []" "length p < 2 ^ 48" "p \<noteq> []" "length p \<le> len"
  shows "\<exists>b' c'. readInLock E c b len = Return (int (length p), None, b', c') \<and>
           take (length p) b' = p \<and> eos c' = eos c"
proof -
  let ?n = "length p"
  let ?c1 = "c\<lparr>inbound := Data (p @ [CR, LF]) # evs, chunkLen := int ?n + 2\<rparr>"
  define k where "k = (if chunkLen ?c1 > int len then len else nat (chunkLen ?c1))"
  define m where "m = min k (length (p @ [CR, LF]))"
  from assms have len: "0 < len" by (cases p) auto
  from assms(8) have n0: "0 < ?n" by simp
  have h: "readChunkLen E c b = (1, None, LF # tl b, ?c1)"
    using assms by (intro readChunkLen_frame) simp_all
  have km: "?n \<le> m" "m \<le> ?n + 2" using assms(9) by (auto simp: k_def m_def)
  have c: "readChunk E ?c1 (LF # tl b) len 1 =
           Return (if chunkLen ?c1 - int m < 2 then int m - (2 - (chunkLen ?c1 - int m)) else int m,
                   None, take m (p @ [CR, LF]) @ drop m (LF # tl b),
                   ?c1\<lparr>inbound := (if m = length (p @ [CR, LF]) then evs
                                      else Data (drop m (p @ [CR, LF])) # evs),
                      chunkLen := chunkLen ?c1 - int m\<rparr>)"
    using assms(1,2,4) n0 by (intro readChunk_segment [OF _ _ _ _ _ k_def m_def]) simp_all
  have ret: "(if chunkLen ?c1 - int m < 2 then int m - (2 - (chunkLen ?c1 - int m)) else int m) = int ?n"
    using km by auto
  have tk: "take ?n (take m (p @ [CR, LF]) @ drop m (LF # tl b)) = p"
    using km by (simp add: take_take min_def)
  from assms(3) len h have "readInLock E c b len = readChunk E ?c1 (LF # tl b) len 1"
    by (simp add: readInLock_def readTrailer_none)
  with c ret tk show ?thesis
    by simp
qed

text \<open>
  C1. A payload \<open>p\<close> written by \<^verbatim>\<open>ObfsConn.Write\<close> as one chunk on a framer with
  nothing queued, and delivered to a peer framer past its handshake as the one segment
  that was written, comes back from \<^verbatim>\<open>readInLock\<close> called with a buffer of at least
  \<open>len(p)\<close> bytes (and at least one): the count is \<open>len(p)\<close> and the buffer starts
  with \<open>p\<close>. For the empty payload the count is zero and the reader reports the end of
  the stream.
\<close>

theorem frame_roundtrip:
  assumes "length p < 2 ^ 48" "wremain w = []"
    and "ObfsConn_Write w p = Return (nw, None, w')"
    and "inbound r = map Data (drop (length (wcalls w)) (wcalls w'))"
    and "remain r = []" "\<not> req r" "\<not> resp r" "chunkLen r = 0" "\<not> eos r"
    and "length p \<le> len" "0 < len" "len \<le> length b"
  shows "\<exists>b' r'. readInLock E r b len =
           Return (int (length p), (if p = [] then Some ReadFromClosedObfs else None), b', r') \<and>
         take (length p) b' = p \<and> eos r' = (p = [])"
proof -
  from assms(11,12) have b: "b \<noteq> []" by auto
  from assms(1,2,3) have "wcalls w' = wcalls w @ [frame p]"
    by (auto simp: ObfsConn_Write_eq RemainConn_Write_def Conn_Write_def
        split: list.splits wevent.splits if_splits)
  with assms(4) have i: "inbound r = Data (frame p) # []" by simp
  show ?thesis
  proof (cases "p = []")
    case True
    with readInLock_frame_empty [of r "[]" b len E] assms i b show ?thesis by auto
  next
    case False
    with readInLock_frame_payload [of r p "[]" b len E] assms i b show ?thesis by auto
  qed
qed

theorem frame_roundtrip_witness:
  "length ping < 2 ^ 48 \<and> wremain (framer []) = [] \<and>
   ObfsConn_Write (framer []) ping = Return (4, None, (framer [])\<lparr>wcalls := [frame ping]\<rparr>) \<and>
   inbound (framer [Data (frame ping)]) =
     map Data (drop (length (wcalls (framer []))) (wcalls ((framer [])\<lparr>wcalls := [frame ping]\<rparr>))) \<and>
   remain (framer [Data (frame ping)]) = [] \<and> \<not> req (framer [Data (frame ping)]) \<and>
   \<not> resp (framer [Data (frame ping)]) \<and> chunkLen (framer [Data (frame ping)]) = 0 \<and>
   \<not> eos (framer [Data (frame ping)]) \<and>
   length ping \<le> 4 \<and> (0::nat) < 4 \<and> 4 \<le> length [0, 0, 0, 0 :: byte] \<and>
   (\<exists>b' r'. readInLock env0 (framer [Data (frame ping)]) [0, 0, 0, 0] 4 =
              Return (int (length ping), (if ping = [] then Some ReadFromClosedObfs else None),
                      b', r') \<and>
            take (length ping) b' = ping \<and> eos r' = (ping = []))"
  using frame_roundtrip [of ping "framer []" 4 "(framer [])\<lparr>wcalls := [frame ping]\<rparr>"
      "framer [Data (frame ping)]" 4 "[0, 0, 0, 0]" env0]
    ObfsConn_Write_eq [of ping "framer []"]
  by (simp add: framer_def ping_def RemainConn_Write_def Conn_Write_def)

section \<open>Claims about the guards of Read\<close>

text \<open>
  C6. A \<^verbatim>\<open>Read\<close> on a destroyed framer returns the read-after-close error, and a
  \<^verbatim>\<open>Read\<close> that finds the \<open>reading\<close> flag set returns the concurrent-read error; in
  both cases the buffer and the whole state, the connection included, are returned as
  they were, so no I/O took place. Otherwise the flag is set before \<^verbatim>\<open>readInLock\<close> runs
  and cleared after it.
\<close>

theorem ObfsConn_Read_guards:
  "(destroy c \<longrightarrow> ObfsConn_Read E c b len = Return (0, Some ReadFromClosedConn, b, c)) \<and>
   (\<not> destroy c \<and> reading c \<longrightarrow> ObfsConn_Read E c b len = Return (0, Some ConcurrentRead, b, c)) \<and>
   (\<not> destroy c \<and> \<not> reading c \<longrightarrow>
      ObfsConn_Read E c b len =
        (case readInLock E (c\<lparr>reading := True\<rparr>) b len of
           Panic \<Rightarrow> Panic
         | Return (n, e, b', c') \<Rightarrow> Return (n, e, b', c'\<lparr>reading := False\<rparr>)))"
  by (simp add: ObfsConn_Read_def)

theorem ObfsConn_Read_guards_witness:
  "\<not> destroy ((framer [Data ping])\<lparr>reading := True\<rparr>) \<and>
   reading ((framer [Data ping])\<lparr>reading := True\<rparr>) \<and>
   ObfsConn_Read env0 ((framer [Data ping])\<lparr>reading := True\<rparr>) [0, 0, 0, 0] 4 =
     Return (0, Some ConcurrentRead, [0, 0, 0, 0], (framer [Data ping])\<lparr>reading := True\<rparr>) \<and>
   destroy ((framer [Data ping])\<lparr>destroy := True\<rparr>) \<and>
   ObfsConn_Read env0 ((framer [Data ping])\<lparr>destroy := True\<rparr>) [0, 0, 0, 0] 4 =
     Return (0, Some ReadFromClosedConn, [0, 0, 0, 0], (framer [Data ping])\<lparr>destroy := True\<rparr>)"
  using ObfsConn_Read_guards [of "(framer [Data ping])\<lparr>reading := True\<rparr>" env0 "[0, 0, 0, 0]" 4]
    ObfsConn_Read_guards [of "(framer [Data ping])\<lparr>destroy := True\<rparr>" env0 "[0, 0, 0, 0]" 4]
  by (simp add: framer_def)

section \<open>Claims about the accept handler\<close>

lemma Conn_Read_peek:
  assumes "inbound conn = Data d # evs"
  shows "Conn_Read conn (replicate (buffersize E) 0) (buffersize E) =
           (length (peeked E d), None, peeked E d @ replicate (buffersize E - length d) 0,
            conn\<lparr>inbound := unpeeked E d evs\<rparr>)"
  using assms by (auto simp: Conn_Read_def Let_def peeked_def unpeeked_def min_def)

lemma obfsAcceptHandler_peek:
  assumes "inbound conn = Data d # evs" "0 < length (peeked E d)"
  shows "obfsAcceptHandler E conn lis_pool =
     (if 4 < length (peeked E d) \<and> take 4 (peeked E d) \<noteq> POST then
        Plain \<lparr>inbound = unpeeked E d evs, wscript = wscript conn, wcalls = wcalls conn,
               closed = closed conn, close_result = close_result conn,
               remain = peeked E d, wremain = []\<rparr>
      else
        Obfs \<lparr>inbound = unpeeked E d evs, wscript = wscript conn, wcalls = wcalls conn,
              closed = closed conn, close_result = close_result conn,
              remain = peeked E d, wremain = buildHTTPResponse E,
              resp = False, req = True, chunkLen = 0, pool = lis_pool, eos = False,
              reading = False, destroy = False\<rparr>)"
proof -
  have "4 < length (peeked E d) \<Longrightarrow>
      take 4 (peeked E d @ replicate (buffersize E - length d) 0) = take 4 (peeked E d)"
    by simp
  then show ?thesis
    using assms(2) unfolding obfsAcceptHandler_def Conn_Read_peek [OF assms(1)]
    by (auto simp: Let_def)
qed

text \<open>
  C7, as amended. When the first read fails or yields no byte, the handler returns no
  connection and closes the raw one. When it yields more than four bytes that do not
  start with \<open>POST\<close>, the handler returns a plain \<^verbatim>\<open>RemainConn\<close> with the peeked bytes as
  look-ahead. When it yields fewer than four bytes, or bytes that start with \<open>POST\<close>,
  the handler returns an accept-role framer: the peeked bytes as look-ahead, the
  response header as unsent bytes, \<open>req\<close> set, and the listener's pool.
\<close>

theorem obfsAcceptHandler_cases:
  "(inbound conn = [] \<or> (\<exists>e evs. inbound conn = Fail e # evs) \<or>
      (\<exists>evs. inbound conn = Data [] # evs) \<longrightarrow>
      (\<exists>conn'. obfsAcceptHandler E conn lis_pool = NoConn conn' \<and> closed conn')) \<and>
   (inbound conn = Data d # evs \<and> 4 < length (peeked E d) \<and> take 4 (peeked E d) \<noteq> POST \<longrightarrow>
      obfsAcceptHandler E conn lis_pool =
        Plain \<lparr>inbound = unpeeked E d evs, wscript = wscript conn, wcalls = wcalls conn,
               closed = closed conn, close_result = close_result conn,
               remain = peeked E d, wremain = []\<rparr>) \<and>
   (inbound conn = Data d # evs \<and> 0 < length (peeked E d) \<and>
      (length (peeked E d) < 4 \<or> take 4 (peeked E d) = POST) \<longrightarrow>
      obfsAcceptHandler E conn lis_pool =
        Obfs \<lparr>inbound = unpeeked E d evs, wscript = wscript conn, wcalls = wcalls conn,
              closed = closed conn, close_result = close_result conn,
              remain = peeked E d, wremain = buildHTTPResponse E,
              resp = False, req = True, chunkLen = 0, pool = lis_pool, eos = False,
              reading = False, destroy = False\<rparr>)"
proof (intro conjI impI)
  assume "inbound conn = [] \<or> (\<exists>e evs. inbound conn = Fail e # evs) \<or>
      (\<exists>evs. inbound conn = Data [] # evs)"
  then show "\<exists>conn'. obfsAcceptHandler E conn lis_pool = NoConn conn' \<and> closed conn'"
    by (auto simp: obfsAcceptHandler_def Conn_Read_def Conn_Close_def)
next
  assume a: "inbound conn = Data d # evs \<and> 4 < length (peeked E d) \<and> take 4 (peeked E d) \<noteq> POST"
  then have "inbound conn = Data d # evs" "0 < length (peeked E d)" by auto
  from obfsAcceptHandler_peek [OF this, of lis_pool] a
  show "obfsAcceptHandler E conn lis_pool =
        Plain \<lparr>inbound = unpeeked E d evs, wscript = wscript conn, wcalls = wcalls conn,
               closed = closed conn, close_result = close_result conn,
               remain = peeked E d, wremain = []\<rparr>"
    by simp
next
  assume a: "inbound conn = Data d # evs \<and> 0 < length (peeked E d) \<and>
      (length (peeked E d) < 4 \<or> take 4 (peeked E d) = POST)"
  then have "inbound conn = Data d # evs" "0 < length (peeked E d)" by auto
  from obfsAcceptHandler_peek [OF this, of lis_pool] a
  show "obfsAcceptHandler E conn lis_pool =
        Obfs \<lparr>inbound = unpeeked E d evs, wscript = wscript conn, wcalls = wcalls conn,
              closed = closed conn, close_result = close_result conn,
              remain = peeked E d, wremain = buildHTTPResponse E,
              resp = False, req = True, chunkLen = 0, pool = lis_pool, eos = False,
              reading = False, destroy = False\<rparr>"
    by auto
qed

theorem obfsAcceptHandler_cases_witness:
  "inbound (rawconn [Data (POST @ ping)]) = Data (POST @ ping) # [] \<and>
   0 < length (peeked env0 (POST @ ping)) \<and> take 4 (peeked env0 (POST @ ping)) = POST \<and>
   obfsAcceptHandler env0 (rawconn [Data (POST @ ping)]) (Some 1) =
     Obfs ((framer [])\<lparr>remain := POST @ ping, wremain := [72, 84, 84, 80], req := True,
             pool := Some 1\<rparr>) \<and>
   inbound (rawconn [Data (GET @ ping)]) = Data (GET @ ping) # [] \<and>
   4 < length (peeked env0 (GET @ ping)) \<and> take 4 (peeked env0 (GET @ ping)) \<noteq> POST \<and>
   obfsAcceptHandler env0 (rawconn [Data (GET @ ping)]) (Some 1) =
     Plain \<lparr>inbound = [], wscript = [], wcalls = [], closed = False, close_result = None,
            remain = GET @ ping, wremain = []\<rparr>"
  using obfsAcceptHandler_cases [of "rawconn [Data (POST @ ping)]" env0 "Some 1" "POST @ ping" "[]"]
    obfsAcceptHandler_cases [of "rawconn [Data (GET @ ping)]" env0 "Some 1" "GET @ ping" "[]"]
  by (simp add: rawconn_def env0_def peeked_def unpeeked_def POST_def GET_def ping_def framer_def)

text \<open>
  C7 as stated fails: a first read of the three bytes \<open>GET\<close> is fewer than four bytes, yet
  the handler builds a framer and not a plain passthrough.
\<close>

theorem obfsAcceptHandler_short_read_counterexample:
  "length GET < 4 \<and>
   obfsAcceptHandler env0 (rawconn [Data GET]) None =
     Obfs ((framer [])\<lparr>remain := GET, wremain := [72, 84, 84, 80], req := True\<rparr>) \<and>
   obfsAcceptHandler env0 (rawconn [Data GET]) None \<noteq>
     Plain \<lparr>inbound = [], wscript = [], wcalls = [], closed = False, close_result = None,
            remain = GET, wremain = []\<rparr>"
  by (simp add: obfsAcceptHandler_def Conn_Read_def rawconn_def env0_def GET_def POST_def
      framer_def Let_def)

section \<open>Claims about DelayConn\<close>

lemma copy_all: "length src \<le> k \<Longrightarrow> k \<le> length arr \<Longrightarrow> copy arr k src = (src @ drop (length src) arr, length src)"
  by (simp add: copy_def Let_def min_def)

lemma DelayConn_Write_flush:
  assumes "off c \<le> length (wbuf c)" "b \<noteq> []" "buffersize E \<le> length b + off c"
  shows "DelayConn_Write E c b =
           (case Conn_Write c (take (off c) (wbuf c) @ b) of
              (_, e, c') \<Rightarrow> Return (if e \<noteq> None then 0 else length b, e, c'\<lparr>off := 0\<rparr>))"
proof -
  have 1: "copy (replicate (length b + off c) 0) (length b + off c) (take (off c) (wbuf c)) =
        (take (off c) (wbuf c) @ replicate (length b) 0, off c)"
    using assms(1) by (simp add: copy_all)
  have 2: "copy (replicate (length b) 0) (length b) b = (b, length b)"
    by (simp add: copy_all)
  show ?thesis
    using assms unfolding DelayConn_Write_def Let_def
    by (simp add: 1 2)
qed

lemma DelayConn_Write_append:
  assumes "off c \<le> length (wbuf c)" "b \<noteq> []" "length b + off c < buffersize E"
    "length (wbuf c) = buffersize E"
  shows "DelayConn_Write E c b =
           Return (length b, None,
             c\<lparr>wbuf := take (off c) (wbuf c) @ b @ drop (off c + length b) (wbuf c),
               off := off c + length b, started := True,
               spawned := (if started c then spawned c else spawned c + 1),
               signals := signals c + 1\<rparr>)"
proof -
  have "copy (drop (off c) (wbuf c)) (length (wbuf c) - off c) b =
      (b @ drop (length b) (drop (off c) (wbuf c)), length b)"
    using assms by (intro copy_all) simp_all
  then show ?thesis
    using assms unfolding DelayConn_Write_def Let_def
    by (simp add: add.commute)
qed

text \<open>
  C8, as amended. For a non-empty \<open>b\<close>: when \<open>len(b) + off\<close> reaches the capacity (the
  bytes would fill the buffer or overflow it), the buffered bytes and \<open>b\<close> go out as one
  underlying write and the offset becomes zero; the flush loop is neither started nor
  signalled. When \<open>len(b) + off\<close> stays below the capacity, \<open>b\<close> is copied behind the
  buffered bytes, the offset grows by \<open>len(b)\<close>, the loop is started if it was not, and
  it is signalled once.
\<close>

theorem DelayConn_Write_cases:
  assumes "length (wbuf c) = buffersize E" "off c \<le> buffersize E" "b \<noteq> []"
  shows "(buffersize E \<le> length b + off c \<longrightarrow>
            DelayConn_Write E c b =
              (case Conn_Write c (take (off c) (wbuf c) @ b) of
                 (_, e, c') \<Rightarrow> Return (if e \<noteq> None then 0 else length b, e, c'\<lparr>off := 0\<rparr>)) \<and>
            wcalls (snd (snd (Conn_Write c (take (off c) (wbuf c) @ b)))) =
              wcalls c @ [take (off c) (wbuf c) @ b]) \<and>
         (length b + off c < buffersize E \<longrightarrow>
            DelayConn_Write E c b =
              Return (length b, None,
                c\<lparr>wbuf := take (off c) (wbuf c) @ b @ drop (off c + length b) (wbuf c),
                  off := off c + length b, started := True,
                  spawned := (if started c then spawned c else spawned c + 1),
                  signals := signals c + 1\<rparr>))"
proof (intro conjI impI)
  assume "buffersize E \<le> length b + off c"
  with assms show "DelayConn_Write E c b =
              (case Conn_Write c (take (off c) (wbuf c) @ b) of
                 (_, e, c') \<Rightarrow> Return (if e \<noteq> None then 0 else length b, e, c'\<lparr>off := 0\<rparr>))"
    by (intro DelayConn_Write_flush) simp_all
next
  show "wcalls (snd (snd (Conn_Write c (take (off c) (wbuf c) @ b)))) =
              wcalls c @ [take (off c) (wbuf c) @ b]"
    by (auto simp: Conn_Write_def split: list.splits wevent.splits)
next
  assume "length b + off c < buffersize E"
  with assms show "DelayConn_Write E c b =
              Return (length b, None,
                c\<lparr>wbuf := take (off c) (wbuf c) @ b @ drop (off c + length b) (wbuf c),
                  off := off c + length b, started := True,
                  spawned := (if started c then spawned c else spawned c + 1),
                  signals := signals c + 1\<rparr>)"
    by (intro DelayConn_Write_append) simp_all
qed

theorem DelayConn_Write_cases_witness:
  "length (wbuf (delayed [1, 2, 0, 0, 0, 0, 0, 0] 2)) = buffersize env0 \<and>
   off (delayed [1, 2, 0, 0, 0, 0, 0, 0] 2) \<le> buffersize env0 \<and> ping \<noteq> [] \<and>
   length ping + off (delayed [1, 2, 0, 0, 0, 0, 0, 0] 2) < buffersize env0 \<and>
   DelayConn_Write env0 (delayed [1, 2, 0, 0, 0, 0, 0, 0] 2) ping =
     Return (4, None, (delayed [1, 2, 112, 105, 110, 103, 0, 0] 6)
                        \<lparr>started := True, spawned := 1, signals := 1\<rparr>) \<and>
   buffersize env0 \<le> length ping + off (delayed [1, 2, 3, 4, 5, 0, 0, 0] 5) \<and>
   DelayConn_Write env0 (delayed [1, 2, 3, 4, 5, 0, 0, 0] 5) ping =
     Return (4, None, (delayed [1, 2, 3, 4, 5, 0, 0, 0] 0)
                        \<lparr>wcalls := [[1, 2, 3, 4, 5, 112, 105, 110, 103]]\<rparr>)"
  using DelayConn_Write_cases [of "delayed [1, 2, 0, 0, 0, 0, 0, 0] 2" env0 ping]
    DelayConn_Write_cases [of "delayed [1, 2, 3, 4, 5, 0, 0, 0] 5" env0 ping]
  by (simp add: delayed_def env0_def ping_def Conn_Write_def)

text \<open>
  C8 as stated fails where \<open>b\<close> fits the buffer exactly: four bytes behind four buffered
  bytes do not overflow a buffer of eight, yet they are written at once and not appended.
\<close>

theorem DelayConn_Write_exact_fit_counterexample:
  "length ping + off (delayed [1, 2, 3, 4, 0, 0, 0, 0] 4) \<le> length (wbuf (delayed [1, 2, 3, 4, 0, 0, 0, 0] 4)) \<and>
   length (wbuf (delayed [1, 2, 3, 4, 0, 0, 0, 0] 4)) = buffersize env0 \<and>
   DelayConn_Write env0 (delayed [1, 2, 3, 4, 0, 0, 0, 0] 4) ping =
     Return (4, None, (delayed [1, 2, 3, 4, 0, 0, 0, 0] 0)
                        \<lparr>wcalls := [[1, 2, 3, 4, 112, 105, 110, 103]]\<rparr>)"
  by (simp add: DelayConn_Write_def delayed_def env0_def ping_def Conn_Write_def copy_def Let_def)

section \<open>What reading leaves alone, and why draining returns\<close>

lemma Conn_Read_le:
  assumes "Conn_Read c b k = (n, e, b', c')"
  shows "pending_size c' \<le> pending_size c" and "c' = c\<lparr>inbound := inbound c'\<rparr>"
  using assms
  by (auto simp: Conn_Read_def pending_size_def Let_def split: list.splits revent.splits if_splits)

lemma RemainConn_Read_le:
  assumes "RemainConn_Read c b k = (n, e, b', c')"
  shows "pending_size c' \<le> pending_size c" and "c' = c\<lparr>remain := remain c', inbound := inbound c'\<rparr>"
proof -
  show "pending_size c' \<le> pending_size c"
    using assms Conn_Read_le(1) [of c b k n e b' c']
    by (auto simp: RemainConn_Read_def copy_def pending_size_def Let_def split: if_splits)
  show "c' = c\<lparr>remain := remain c', inbound := inbound c'\<rparr>"
    using assms 
    by (auto simp: RemainConn_Read_def Conn_Read_def copy_def Let_def split: if_splits list.splits revent.splits)
qed

lemma untouched_RemainConn_Read:
  assumes "RemainConn_Read c b k = (n, e, b', c')"
  shows "untouched c' = untouched c"
proof -
  have "untouched c' = untouched (c\<lparr>remain := remain c', inbound := inbound c'\<rparr>)"
    using RemainConn_Read_le(2) [OF assms] by simp
  then show ?thesis by (simp add: untouched_def)
qed

lemma readObfsHeader_le:
  assumes "readObfsHeader E c b k = (n, e, b', c')"
  shows "pending_size c' \<le> pending_size c" and "untouched c' = untouched c"
proof -
  obtain m e1 buf c1 where r: "RemainConn_Read c (replicate (buffersize E) 0) (buffersize E) = (m, e1, buf, c1)"
    by (metis prod_cases4)
  note le = RemainConn_Read_le(1) [OF r] and u = untouched_RemainConn_Read [OF r]
  show "pending_size c' \<le> pending_size c"
  proof (cases e)
    case None
    with assms readObfsHeader_pending [of E c b k n b' c'] show ?thesis by simp
  next
    case (Some x)
    with assms r have "c' = c1"
      by (auto simp: readObfsHeader_def Let_def split: if_splits prod.splits)
    with le show ?thesis by simp
  qed
  from assms r have "untouched c' = untouched c1"
    by (auto simp: readObfsHeader_def Let_def untouched_def split: if_splits prod.splits)
  with u show "untouched c' = untouched c" by simp
qed

lemma doRead_le:
  assumes "doRead E c b k = (n, e, b', c')"
  shows "pending_size c' \<le> pending_size c" and "untouched c' = untouched c"
proof -
  obtain n1 e1 b1 c1 where h: "readObfsHeader E c b k = (n1, e1, b1, c1)"
    by (metis prod_cases4)
  note hl = readObfsHeader_le [OF h]
  obtain n2 e2 b2 c2 where r: "RemainConn_Read c1 b1 k = (n2, e2, b2, c2)"
    by (metis prod_cases4)
  note rl = RemainConn_Read_le(1) [OF r] untouched_RemainConn_Read [OF r]
  obtain n3 e3 b3 c3 where r3: "RemainConn_Read c b k = (n3, e3, b3, c3)"
    by (metis prod_cases4)
  note rl3 = RemainConn_Read_le(1) [OF r3] untouched_RemainConn_Read [OF r3]
  from assms h r r3 have "c' = c1 \<or> c' = c2 \<or> c' = c3"
    by (auto simp: doRead_def split: if_splits)
  with hl rl rl3 show "pending_size c' \<le> pending_size c" and "untouched c' = untouched c"
    by auto
qed

lemma readChunkLenStr_le:
  "readChunkLenStr E c b s = (n, e, s', b', c') \<Longrightarrow>
     pending_size c' \<le> pending_size c \<and> untouched c' = untouched c"
proof (induction c arbitrary: b s rule: measure_induct_rule [where f = pending_size])
  case (less c)
  obtain n1 e1 b1 c1 where d: "doRead E c b 1 = (n1, e1, b1, c1)"
    by (metis prod_cases4)
  note dl = doRead_le [OF d]
  show ?case
  proof (cases "e1 = None \<and> n1 \<noteq> 0 \<and> (isHex (b1 ! 0) \<or> b1 ! 0 = CR)")
    case False
    with less.prems d have "c' = c1"
      by (subst (asm) readChunkLenStr.simps) (auto simp: Let_def split: if_splits)
    with dl show ?thesis by simp
  next
    case True
    with d have dec: "pending_size c1 < pending_size c"
      using doRead_pending [of E c b 1 n1 b1 c1] by simp
    from True less.prems d obtain s1 where "readChunkLenStr E c1 b1 s1 = (n, e, s', b', c')"
      by (subst (asm) readChunkLenStr.simps) (auto simp: Let_def split: if_splits)
    from less.IH [OF dec this] dl show ?thesis by simp
  qed
qed

lemma ReadFull_le:
  "ReadFull c len n e = (n', e', c') \<Longrightarrow>
     pending_size c' \<le> pending_size c \<and> c' = c\<lparr>remain := remain c', inbound := inbound c'\<rparr>"
proof (induction c len n e rule: ReadFull.induct)
  case (1 r len n e)
  show ?case
  proof (cases "n < len \<and> e = None")
    case False
    with "1.prems" have "c' = r"
      by (subst (asm) ReadFull.simps) auto
    then show ?thesis by simp
  next
    case True
    obtain nn e1 z r1 where rd: "RemainConn_Read r (replicate (len - n) 0) (len - n) = (nn, e1, z, r1)"
      by (metis prod_cases4)
    note rl = RemainConn_Read_le [OF rd]
    from True "1.prems" rd have "ReadFull r1 len (n + nn) e1 = (n', e', c')"
      by (subst (asm) ReadFull.simps) simp
    from "1.IH" [OF True rd [symmetric] refl refl this]
    have a: "pending_size c' \<le> pending_size r1" and b: "c' = r1\<lparr>remain := remain c', inbound := inbound c'\<rparr>"
      by simp_all
    have "r1\<lparr>remain := remain c', inbound := inbound c'\<rparr> = r\<lparr>remain := remain c', inbound := inbound c'\<rparr>"
      by (subst rl(2)) simp
    with a b rl(1) show ?thesis by simp
  qed
qed


lemma untouched_chunkLen [simp]: "untouched (c\<lparr>chunkLen := l\<rparr>) = untouched c"
  and untouched_eos [simp]: "untouched (c\<lparr>eos := x\<rparr>) = untouched c"
  and pending_size_chunkLen [simp]: "pending_size (c\<lparr>chunkLen := l\<rparr>) = pending_size c"
  and pending_size_eos [simp]: "pending_size (c\<lparr>eos := x\<rparr>) = pending_size c"
  by (simp_all add: untouched_def pending_size_def)

lemma readTrailer_le:
  assumes "readTrailer E c b = Return (e, b', c')"
  shows "pending_size c' \<le> pending_size c" and "untouched c' = untouched c"
    and "e = None \<Longrightarrow> chunkLen c' \<noteq> 1 \<and> chunkLen c' \<noteq> 2"
proof -
  obtain n1 e1 b1 c1 where d: "doRead E c b (nat (chunkLen c)) = (n1, e1, b1, c1)"
    by (metis prod_cases4)
  note dl = doRead_le [OF d]
  from assms d have "c' = c \<or> c' = c1 \<or> c' = c1\<lparr>chunkLen := 0\<rparr>"
    by (auto simp: readTrailer_def split: if_splits)
  with dl show "pending_size c' \<le> pending_size c" and "untouched c' = untouched c"
    by auto
  show "e = None \<Longrightarrow> chunkLen c' \<noteq> 1 \<and> chunkLen c' \<noteq> 2"
    using assms d by (auto simp: readTrailer_def split: if_splits)
qed

lemma wrap64_chunk:
  assumes "0 \<le> i" "i \<le> maxInt"
  shows "wrap64 (i + 2) < 0 \<or> 2 \<le> wrap64 (i + 2)"
proof (cases "i + 2 < 2 ^ 63")
  case True
  with assms have "wrap64 (i + 2) = i + 2" by (intro wrap64_id) simp_all
  with assms show ?thesis by simp
next
  case False
  with assms have "i = 2 ^ 63 - 2 \<or> i = 2 ^ 63 - 1" by (auto simp: maxInt_def)
  then show ?thesis by (auto simp: wrap64_def)
qed

lemma readChunkLen_le:
  assumes "readChunkLen E c b = (n, e, b', c')"
  shows "pending_size c' \<le> pending_size c" and "untouched c' = untouched c"
    and "e = None \<Longrightarrow> chunkLen c \<noteq> 1 \<Longrightarrow> chunkLen c' < 0 \<or> 2 \<le> chunkLen c'"
proof -
  obtain n1 e1 s1 b1 c1 where l: "readChunkLenStr E c b [] = (n1, e1, s1, b1, c1)"
    by (metis prod_cases5)
  note ll = readChunkLenStr_le [OF l]
  from assms l have "c' = c \<or> c' = c1 \<or> (\<exists>x. c' = c1\<lparr>chunkLen := x\<rparr>)"
    by (auto simp: readChunkLen_def split: if_splits sum.splits)
  with ll show "pending_size c' \<le> pending_size c" and "untouched c' = untouched c"
    by auto
  show "chunkLen c' < 0 \<or> 2 \<le> chunkLen c'" if "e = None" "chunkLen c \<noteq> 1"
  proof (cases "chunkLen c = 0")
    case False
    with assms that have "c' = c" by (simp add: readChunkLen_def)
    with False that show ?thesis by auto
  next
    case True
    with assms l that obtain i where "ParseInt16 s1 = Inr i" "chunkLen c' = wrap64 (i + 2)"
      by (auto simp: readChunkLen_def split: if_splits sum.splits)
    moreover from this have "0 \<le> i" "i \<le> maxInt"
      by (auto simp: ParseInt16_def split: if_splits)
    ultimately show ?thesis using wrap64_chunk [of i] by simp
  qed
qed

lemma readChunk_le:
  assumes "readChunk E c b len n0 = Return (n, e, b', c')"
  shows "pending_size c' \<le> pending_size c" and "untouched c' = untouched c"
    and "e = None \<Longrightarrow> 0 < len \<Longrightarrow> 2 \<le> chunkLen c \<Longrightarrow> pending_size c' < pending_size c"
proof -
  obtain n1 e1 c1 where f: "ReadFull c 2 0 None = (n1, e1, c1)"
    by (metis prod_cases3)
  from ReadFull_le [OF f] have fl: "pending_size c1 \<le> pending_size c" "untouched c1 = untouched c"
  proof -
    assume a: "pending_size c1 \<le> pending_size c \<and> c1 = c\<lparr>remain := remain c1, inbound := inbound c1\<rparr>"
    then show "pending_size c1 \<le> pending_size c" by simp
    from a have "untouched c1 = untouched (c\<lparr>remain := remain c1, inbound := inbound c1\<rparr>)" by simp
    then show "untouched c1 = untouched c" by (simp add: untouched_def)
  qed
  let ?k = "if chunkLen c > int len then len else nat (chunkLen c)"
  obtain n2 e2 b2 c2 where d: "doRead E c b ?k = (n2, e2, b2, c2)"
    by (metis prod_cases4)
  note dl = doRead_le [OF d]
  from assms f d have c': "c' = c1 \<or> c' = c1\<lparr>eos := True\<rparr> \<or> c' = c2 \<or> (\<exists>x. c' = c2\<lparr>chunkLen := x\<rparr>)"
    by (auto simp: readChunk_def Let_def split: if_splits)
  with fl dl show "pending_size c' \<le> pending_size c" and "untouched c' = untouched c"
    by auto
  show "pending_size c' < pending_size c" if "e = None" "0 < len" "2 \<le> chunkLen c"
  proof -
    from assms f that have ne: "chunkLen c \<noteq> 2"
      by (auto simp: readChunk_def split: if_splits)
    with that have k: "0 < ?k" by auto
    from assms d ne that have "e2 = None" "c' = c2\<lparr>chunkLen := chunkLen c2 - int n2\<rparr>"
      by (auto simp: readChunk_def Let_def split: if_splits)
    with doRead_pending [of E c b ?k n2 b2 c2] d k show ?thesis by simp
  qed
qed

lemma readInLock_le:
  assumes "readInLock E c b len = Return (n, e, b', c')"
  shows "pending_size c' \<le> pending_size c" and "untouched c' = untouched c"
    and "e = None \<Longrightarrow> 0 < len \<Longrightarrow> pending_size c' < pending_size c"
proof -
  have "pending_size c' \<le> pending_size c \<and> untouched c' = untouched c \<and>
      (e = None \<longrightarrow> 0 < len \<longrightarrow> pending_size c' < pending_size c)"
  proof (cases "len = 0")
    case True
    with assms show ?thesis by (simp add: readInLock_def)
  next
    case False
    with assms obtain e1 b1 c1 where t: "readTrailer E c b = Return (e1, b1, c1)"
      by (auto simp: readInLock_def split: outcome.splits)
    note tl = readTrailer_le [OF t]
    show ?thesis
    proof (cases "e1 = None")
      case e1: False
      with assms t False have "c' = c1" "e \<noteq> None" by (auto simp: readInLock_def)
      with tl show ?thesis by auto
    next
      case e1: True
      obtain n2 e2 b2 c2 where h: "readChunkLen E c1 b1 = (n2, e2, b2, c2)"
        by (metis prod_cases4)
      note hl = readChunkLen_le [OF h]
      show ?thesis
      proof (cases "e2 = None")
        case e2: False
        with assms t False e1 h have "c' = c2" "e \<noteq> None" by (auto simp: readInLock_def)
        with tl hl show ?thesis by auto
      next
        case e2: True
        with assms t False e1 h have r: "readChunk E c2 b2 len n2 = Return (n, e, b', c')"
          by (auto simp: readInLock_def)
        note rl = readChunk_le [OF r]
        from tl(3) [OF e1] hl(3) [OF e2] have "chunkLen c2 < 0 \<or> 2 \<le> chunkLen c2" by simp
        moreover have "e \<noteq> None" if "chunkLen c2 < 0"
          using r that by (auto simp: readChunk_def Let_def split: if_splits prod.splits)
        ultimately have "e = None \<longrightarrow> 0 < len \<longrightarrow> pending_size c' < pending_size c2"
          using rl(3) by auto
        with tl hl rl show ?thesis by auto
      qed
    qed
  qed
  then show "pending_size c' \<le> pending_size c" and "untouched c' = untouched c"
    and "e = None \<Longrightarrow> 0 < len \<Longrightarrow> pending_size c' < pending_size c"
    by simp_all
qed


lemma untouched_fields:
  assumes "untouched c' = untouched c"
  shows "reading c' = reading c" "destroy c' = destroy c" "pool c' = pool c"
    "closed c' = closed c" "close_result c' = close_result c" "wcalls c' = wcalls c"
    "wscript c' = wscript c" "wremain c' = wremain c"
proof -
  have "reading (untouched c') = reading (untouched c)" "destroy (untouched c') = destroy (untouched c)"
    "pool (untouched c') = pool (untouched c)" "closed (untouched c') = closed (untouched c)"
    "close_result (untouched c') = close_result (untouched c)"
    "wcalls (untouched c') = wcalls (untouched c)" "wscript (untouched c') = wscript (untouched c)"
    "wremain (untouched c') = wremain (untouched c)"
    using assms by simp_all
  then show "reading c' = reading c" "destroy c' = destroy c" "pool c' = pool c"
    "closed c' = closed c" "close_result c' = close_result c" "wcalls c' = wcalls c"
    "wscript c' = wscript c" "wremain c' = wremain c"
    by (simp_all add: untouched_def)
qed

lemma drain_returns:
  assumes "0 < buffersize E" "\<not> reading c"
  shows "\<exists>r. drain E c buf = Some r \<and>
           (case r of Panic \<Rightarrow> True
            | Return (marker, c') \<Rightarrow> marker = eos c' \<and> untouched c' = untouched c)"
  using assms(2)
proof (induction c arbitrary: buf rule: measure_induct_rule [where f = pending_size])
  case (less c)
  show ?case
  proof (cases "eos c")
    case True
    then have "drain E c buf = Some (Return (True, c))" by (subst drain.simps) simp
    with True show ?thesis by simp
  next
    case False
    show ?thesis
    proof (cases "readInLock E c buf (buffersize E)")
      case Panic
      with False less.prems have "drain E c buf = Some Panic" by (subst drain.simps) simp
      then show ?thesis by simp
    next
      case (Return x)
      then obtain n e buf' c' where r: "readInLock E c buf (buffersize E) = Return (n, e, buf', c')"
        by (cases x) auto
      note rl = readInLock_le [OF r]
      show ?thesis
      proof (cases "e = None")
        case e: False
        with False less.prems r have "drain E c buf = Some (Return (eos c', c'))"
          by (subst drain.simps) auto
        with rl show ?thesis by simp
      next
        case e: True
        with False less.prems r have d: "drain E c buf = drain E c' buf'"
          by (subst drain.simps) simp
        from rl(3) e assms(1) have dec: "pending_size c' < pending_size c" by simp
        from untouched_fields(1) [OF rl(2)] less.prems have "\<not> reading c'" by simp
        from less.IH [OF dec this, of buf'] d rl(2) show ?thesis
          by (auto split: outcome.splits)
      qed
    qed
  qed
qed

section \<open>Claims about Close\<close>

lemma ObfsConn_Write_nil:
  "\<exists>n e c1. ObfsConn_Write c [] = Return (n, e, c1) \<and> reading c1 = reading c \<and>
     closed c1 = closed c \<and> close_result c1 = close_result c \<and> pool c1 = pool c \<and>
     destroy c1 = destroy c \<and> wcalls c1 = wcalls c @ [wremain c @ [48, 13, 10, 13, 10]]"
  using ObfsConn_Write_eq [of "[]" c]
  by (auto simp: RemainConn_Write_def Conn_Write_def frame_nil
      split: if_splits list.splits wevent.splits option.splits)

lemma fresh_eq:
  "fresh c = c\<lparr>resp := False, req := False, chunkLen := 0, eos := False, reading := False,
              destroy := False\<rparr>"
  by (simp add: fresh_def)

text \<open>
  C4, as amended. With no read of another goroutine in flight and a buffer size above
  zero, \<^verbatim>\<open>Close\<close> returns. On a destroyed framer it returns at once and changes
  nothing; every other path sets \<open>destroy\<close> first. Without a pool reference it closes the
  underlying connection. With one, it writes the zero-length chunk; if that write fails
  it closes the connection; otherwise it drains. When the drain ends with \<open>eos\<close> set, a
  fresh framer (same connection, same look-ahead and unsent bytes, same pool, every other
  field reset) is handed to \<^verbatim>\<open>Put\<close>: if \<^verbatim>\<open>Put\<close> accepts it the connection stays open,
  if \<^verbatim>\<open>Put\<close> returns an error the connection is closed. When the drain ends on a read
  error with \<open>eos\<close> clear, the connection is closed and \<^verbatim>\<open>Put\<close> is not called.
  \<^verbatim>\<open>pool.Put\<close> is a parameter: the pool is not part of the sources.
\<close>

theorem ObfsConn_Close_cases:
  assumes "0 < buffersize E" "\<not> reading c"
  shows "(destroy c \<longrightarrow> ObfsConn_Close E Put P c = Some (Return (None, c, P))) \<and>
         (\<not> destroy c \<and> pool c = None \<longrightarrow>
            ObfsConn_Close E Put P c =
              Some (Return (close_result c, c\<lparr>destroy := True, closed := True\<rparr>, P))) \<and>
         (\<not> destroy c \<and> pool c \<noteq> None \<longrightarrow>
            (\<exists>n e c1. ObfsConn_Write (c\<lparr>destroy := True\<rparr>) [] = Return (n, e, c1) \<and>
               (e \<noteq> None \<longrightarrow>
                  ObfsConn_Close E Put P c =
                    Some (Return (close_result c, c1\<lparr>closed := True\<rparr>, P))) \<and>
               (e = None \<longrightarrow>
                  (\<exists>r. drain E c1 (replicate (buffersize E) 0) = Some r \<and>
                     (case r of
                        Panic \<Rightarrow> ObfsConn_Close E Put P c = Some Panic
                      | Return (marker, c2) \<Rightarrow>
                          marker = eos c2 \<and> closed c2 = closed c \<and> pool c2 = pool c \<and> destroy c2 \<and>
                          (eos c2 \<longrightarrow>
                             ObfsConn_Close E Put P c =
                               (case Put P (fresh c2) of
                                  (e', P') \<Rightarrow>
                                    if e' \<noteq> None then
                                      Some (Return (close_result c, c2\<lparr>closed := True\<rparr>, P'))
                                    else Some (Return (None, c2, P')))) \<and>
                          (\<not> eos c2 \<longrightarrow>
                             ObfsConn_Close E Put P c =
                               Some (Return (close_result c, c2\<lparr>closed := True\<rparr>, P)))))))) \<and>
         fresh c = c\<lparr>resp := False, req := False, chunkLen := 0, eos := False,
                     reading := False, destroy := False\<rparr>"
proof (intro conjI impI)
  assume "destroy c"
  then show "ObfsConn_Close E Put P c = Some (Return (None, c, P))"
    by (simp add: ObfsConn_Close_def)
next
  assume "\<not> destroy c \<and> pool c = None"
  then show "ObfsConn_Close E Put P c =
      Some (Return (close_result c, c\<lparr>destroy := True, closed := True\<rparr>, P))"
    by (simp add: ObfsConn_Close_def Conn_Close_def)
next
  assume a: "\<not> destroy c \<and> pool c \<noteq> None"
  let ?c = "c\<lparr>destroy := True\<rparr>"
  from ObfsConn_Write_nil [of ?c] obtain n e c1
    where w: "ObfsConn_Write ?c [] = Return (n, e, c1)"
      and c1: "reading c1 = reading c" "closed c1 = closed c" "close_result c1 = close_result c"
        "pool c1 = pool c" "destroy c1"
    by auto
  have err: "ObfsConn_Close E Put P c = Some (Return (close_result c, c1\<lparr>closed := True\<rparr>, P))"
    if "e \<noteq> None"
    using a w c1 that by (auto simp: ObfsConn_Close_def Conn_Close_def Let_def)
  have ok: "\<exists>r. drain E c1 (replicate (buffersize E) 0) = Some r \<and>
                     (case r of
                        Panic \<Rightarrow> ObfsConn_Close E Put P c = Some Panic
                      | Return (marker, c2) \<Rightarrow>
                          marker = eos c2 \<and> closed c2 = closed c \<and> pool c2 = pool c \<and> destroy c2 \<and>
                          (eos c2 \<longrightarrow>
                             ObfsConn_Close E Put P c =
                               (case Put P (fresh c2) of
                                  (e', P') \<Rightarrow>
                                    if e' \<noteq> None then
                                      Some (Return (close_result c, c2\<lparr>closed := True\<rparr>, P'))
                                    else Some (Return (None, c2, P')))) \<and>
                          (\<not> eos c2 \<longrightarrow>
                             ObfsConn_Close E Put P c =
                               Some (Return (close_result c, c2\<lparr>closed := True\<rparr>, P))))"
    if e: "e = None"
  proof -
    from assms(2) c1(1) have "\<not> reading c1" by simp
    from drain_returns [OF assms(1) this, of "replicate (buffersize E) 0"]
    obtain r where d: "drain E c1 (replicate (buffersize E) 0) = Some r"
      and p: "case r of Panic \<Rightarrow> True
            | Return (marker, c') \<Rightarrow> marker = eos c' \<and> untouched c' = untouched c1"
      by auto
    show ?thesis
    proof (cases r)
      case Panic
      with a w e d show ?thesis by (auto simp: ObfsConn_Close_def Let_def)
    next
      case (Return x)
      then obtain marker c2 where r: "r = Return (marker, c2)" by (cases x) auto
      with p have m: "marker = eos c2" and u: "untouched c2 = untouched c1" by simp_all
      note f = untouched_fields [OF u]
      from f c1 have c2: "closed c2 = closed c" "pool c2 = pool c" "destroy c2"
        "close_result c2 = close_result c"
        by simp_all
      from a w e d r m c2 show ?thesis
        by (auto simp: ObfsConn_Close_def Conn_Close_def Let_def split: prod.splits)
    qed
  qed
  from w err ok
  show "\<exists>n e c1. ObfsConn_Write (c\<lparr>destroy := True\<rparr>) [] = Return (n, e, c1) \<and>
               (e \<noteq> None \<longrightarrow>
                  ObfsConn_Close E Put P c =
                    Some (Return (close_result c, c1\<lparr>closed := True\<rparr>, P))) \<and>
               (e = None \<longrightarrow>
                  (\<exists>r. drain E c1 (replicate (buffersize E) 0) = Some r \<and>
                     (case r of
                        Panic \<Rightarrow> ObfsConn_Close E Put P c = Some Panic
                      | Return (marker, c2) \<Rightarrow>
                          marker = eos c2 \<and> closed c2 = closed c \<and> pool c2 = pool c \<and> destroy c2 \<and>
                          (eos c2 \<longrightarrow>
                             ObfsConn_Close E Put P c =
                               (case Put P (fresh c2) of
                                  (e', P') \<Rightarrow>
                                    if e' \<noteq> None then
                                      Some (Return (close_result c, c2\<lparr>closed := True\<rparr>, P'))
                                    else Some (Return (None, c2, P')))) \<and>
                          (\<not> eos c2 \<longrightarrow>
                             ObfsConn_Close E Put P c =
                               Some (Return (close_result c, c2\<lparr>closed := True\<rparr>, P))))))"
    by blast
next
  show "fresh c = c\<lparr>resp := False, req := False, chunkLen := 0, eos := False,
                     reading := False, destroy := False\<rparr>"
    by (rule fresh_eq)
qed

lemma ReadFull_two_bytes:
  assumes "remain c = []" "inbound c = Data [x, y] # evs"
  shows "ReadFull c 2 0 None = (2, None, c\<lparr>inbound := evs\<rparr>)"
proof -
  have "RemainConn_Read c (replicate (2 - 0) 0) (2 - 0) = (2, None, [x, y], c\<lparr>inbound := evs\<rparr>)"
    using assms by (simp add: RemainConn_Read_def Conn_Read_def Let_def)
  then have "ReadFull c 2 0 None = ReadFull (c\<lparr>inbound := evs\<rparr>) 2 2 None"
    by (subst ReadFull.simps) simp
  also have "\<dots> = (2, None, c\<lparr>inbound := evs\<rparr>)"
    by (subst ReadFull.simps) simp
  finally show ?thesis .
qed

lemma readInLock_zero_chunk:
  assumes "\<not> req c" "\<not> resp c" "chunkLen c = 0" "remain c = []"
    "inbound c = Data zero_chunk # evs" "b \<noteq> []" "0 < len"
  shows "readInLock E c b len =
           Return (0, Some ReadFromClosedObfs, LF # tl b,
                   c\<lparr>inbound := evs, chunkLen := 2, eos := True\<rparr>)"
proof -
  let ?c1 = "c\<lparr>inbound := Data ([] @ [CR, LF]) # evs, chunkLen := int (length ([]::byte list)) + 2\<rparr>"
  have z: "zero_chunk = frame []" by (simp add: zero_chunk_def frame_nil)
  have h: "readChunkLen E c b = (1, None, LF # tl b, ?c1)"
    using assms by (intro readChunkLen_frame) (simp_all add: z)
  have f: "ReadFull ?c1 2 0 None = (2, None, ?c1\<lparr>inbound := evs\<rparr>)"
    using assms by (intro ReadFull_two_bytes [of _ CR LF]) simp_all
  from assms h f show ?thesis
    by (simp add: readInLock_def readTrailer_none readChunk_def)
qed

lemma drain_read_error:
  assumes "\<not> eos c" "\<not> reading c" "readInLock E c buf (buffersize E) = Return (n, Some e, buf', c')"
  shows "drain E c buf = Some (Return (eos c', c'))"
  using assms by (subst drain.simps) simp

lemma drain_pooled_zero_chunk:
  "drain env0 ((pooled [Data zero_chunk])\<lparr>destroy := True, wcalls := [zero_chunk]\<rparr>)
      (replicate (buffersize env0) 0) =
     Some (Return (True, (pooled [])\<lparr>destroy := True, wcalls := [zero_chunk], chunkLen := 2, eos := True\<rparr>))"
proof -
  let ?c = "(pooled [Data zero_chunk])\<lparr>destroy := True, wcalls := [zero_chunk]\<rparr>"
  have "readInLock env0 ?c (replicate (buffersize env0) 0) (buffersize env0) =
           Return (0, Some ReadFromClosedObfs, LF # tl (replicate (buffersize env0) 0),
                   ?c\<lparr>inbound := [], chunkLen := 2, eos := True\<rparr>)"
    by (intro readInLock_zero_chunk) (simp_all add: pooled_def framer_def env0_def)
  then have "drain env0 ?c (replicate (buffersize env0) 0) =
      Some (Return (eos (?c\<lparr>inbound := [], chunkLen := 2, eos := True\<rparr>),
                    ?c\<lparr>inbound := [], chunkLen := 2, eos := True\<rparr>))"
    by (intro drain_read_error) (simp_all add: pooled_def framer_def)
  then show ?thesis by (simp add: pooled_def framer_def)
qed

lemma Write_nil_pooled:
  "ObfsConn_Write ((pooled evs)\<lparr>destroy := True\<rparr>) [] =
     Return (0, None, (pooled evs)\<lparr>destroy := True, wcalls := [zero_chunk]\<rparr>)"
  using ObfsConn_Write_eq [of "[]" "(pooled evs)\<lparr>destroy := True\<rparr>"]
  by (simp add: frame_nil zero_chunk_def pooled_def framer_def RemainConn_Write_def Conn_Write_def)

theorem ObfsConn_Close_cases_witness:
  "0 < buffersize env0 \<and> \<not> reading (pooled [Data zero_chunk]) \<and>
   \<not> destroy (pooled [Data zero_chunk]) \<and> pool (pooled [Data zero_chunk]) \<noteq> None \<and>
   ObfsConn_Close env0 Put_accept [] (pooled [Data zero_chunk]) =
     Some (Return (None,
       (pooled [])\<lparr>destroy := True, wcalls := [zero_chunk], chunkLen := 2, eos := True\<rparr>,
       [(pooled [])\<lparr>wcalls := [zero_chunk]\<rparr>])) \<and>
   \<not> closed ((pooled [])\<lparr>destroy := True, wcalls := [zero_chunk], chunkLen := 2, eos := True\<rparr>)"
  using ObfsConn_Close_cases [of env0 "pooled [Data zero_chunk]" Put_accept "[]"]
  by (simp add: Write_nil_pooled drain_pooled_zero_chunk Put_accept_def)
    (simp add: pooled_def framer_def env0_def fresh_def)

text \<open>
  C4 as stated fails when the pool rejects the framer: the drain has seen the marker, yet
  the underlying connection ends closed.
\<close>

theorem ObfsConn_Close_pool_full_counterexample:
  "pool (pooled [Data zero_chunk]) \<noteq> None \<and> \<not> closed (pooled [Data zero_chunk]) \<and>
   drain env0 ((pooled [Data zero_chunk])\<lparr>destroy := True, wcalls := [zero_chunk]\<rparr>)
      (replicate (buffersize env0) 0) =
     Some (Return (True, (pooled [])\<lparr>destroy := True, wcalls := [zero_chunk], chunkLen := 2, eos := True\<rparr>)) \<and>
   ObfsConn_Close env0 Put_reject [] (pooled [Data zero_chunk]) =
     Some (Return (None,
       (pooled [])\<lparr>destroy := True, wcalls := [zero_chunk], chunkLen := 2, eos := True, closed := True\<rparr>,
       []))"
  by (simp add: ObfsConn_Close_def Write_nil_pooled drain_pooled_zero_chunk Put_reject_def
      Conn_Close_def Let_def)
    (simp add: pooled_def framer_def)

section \<open>Claims about the chunk length\<close>

lemma readInLock_payload_accounting:
  assumes "\<not> req c" "\<not> resp c" "2 < chunkLen c" "0 < len"
    and r: "readInLock E c b len = Return (n, None, b', c')"
  shows "\<exists>m. m \<le> length (unread c) \<and> unread c' = drop m (unread c) \<and>
           chunkLen c' = chunkLen c - int m \<and> 0 \<le> chunkLen c' \<and>
           n = min (int m) (chunkLen c - 2) \<and> take (nat n) b' = take (nat n) (unread c)"
proof -
  define k where "k = (if chunkLen c > int len then len else nat (chunkLen c))"
  obtain m e b1 c1 where d: "RemainConn_Read c b k = (m, e, b1, c1)"
    by (metis prod_cases4)
  have "readChunkLen E c b = (0, None, b, c)"
    using assms(3) by (simp add: readChunkLen_def)
  with assms have "readChunk E c b len 0 = Return (n, None, b', c')"
    by (simp add: readInLock_def readTrailer_none)
  with assms(1-3) d have e: "e = None" and c': "c' = c1\<lparr>chunkLen := chunkLen c1 - int m\<rparr>"
    and n: "n = (if chunkLen c1 - int m < 2 then int m - (2 - (chunkLen c1 - int m)) else int m)"
    and b': "b' = b1"
    unfolding readChunk_def k_def [symmetric]
    by (auto simp: doRead_chunk_mode Let_def split: if_splits)
  note s = RemainConn_Read_stream [OF d [unfolded e]]
  have "chunkLen c1 = chunkLen (c\<lparr>remain := remain c1, inbound := inbound c1\<rparr>)"
    using s(5) by simp
  then have l: "chunkLen c1 = chunkLen c" by simp
  from s(4) assms(3) have mk: "int m \<le> chunkLen c" by (auto simp: k_def split: if_splits)
  from n l mk have n': "n = min (int m) (chunkLen c - 2)" by auto
  with assms(3) have "nat n \<le> m" by auto
  with s(1) s(3) b' have "take (nat n) b' = take (nat n) (unread c)" by simp
  moreover from c' s(2) have "unread c' = drop m (unread c)" by (simp add: unread_def)
  ultimately show ?thesis using s(3) c' l mk n' by auto
qed

lemma drain_eos: "eos c \<Longrightarrow> drain E c buf = Some (Return (True, c))"
  by (subst drain.simps) simp

lemma hexval_Nil: "hexval [] = 0"
  by (simp add: hexval_def)

lemma readChunkLen_range:
  assumes "\<not> req c" "\<not> resp c" "chunkLen c = 0" "segments_ok (inbound c)"
    "unread c = hs @ LF # rest" "list_all (\<lambda>h. isHex h \<or> h = CR) hs" "b \<noteq> []"
    "maxInt < int (hexval (filter isHex hs))"
  shows "\<exists>r' i'. readChunkLen E c b =
            (1, Some ErrRange, LF # tl b, c\<lparr>remain := r', inbound := i'\<rparr>) \<and>
           r' @ stream_of i' = rest"
proof -
  from assms readChunkLenStr_line [of c hs LF rest b E "[]"]
  obtain r' i' where l: "readChunkLenStr E c b [] =
            (1, None, filter isHex hs, LF # tl b, c\<lparr>remain := r', inbound := i'\<rparr>)"
    and s: "r' @ stream_of i' = rest"
    by auto
  from assms(8) have ne: "filter isHex hs \<noteq> []"
    by (auto simp: hexval_Nil maxInt_def)
  from assms(8) have p: "ParseInt16 (filter isHex hs) = Inl ErrRange"
    by (simp add: ParseInt16_def)
  from l assms(3) ne have "readChunkLen E c b =
            (1, Some ErrRange, LF # tl b, c\<lparr>remain := r', inbound := i'\<rparr>)"
    by (simp add: readChunkLen_def p)
  with s show ?thesis by blast
qed

text \<open>
  C9, as amended. For a framer past the handshake: a read into an open chunk
  (\<open>chunkLen > 2\<close>) that returns without error has consumed some \<open>m\<close> bytes of the
  stream, leaves \<open>chunkLen - m\<close>, which is not negative, and delivers the first
  \<open>min(m, chunkLen - 2)\<close> of them, the payload among them. A chunk-length line of value
  \<open>v\<close> with \<open>v + 2\<close> at most the largest \<^verbatim>\<open>int\<close> sets \<open>chunkLen\<close> to \<open>v + 2\<close>; a line of
  value above the largest \<^verbatim>\<open>int\<close> fails with the range error of \<^verbatim>\<open>ParseInt\<close> and leaves
  \<open>chunkLen\<close> at zero. Once \<open>eos\<close> is set, the drain loop of \<^verbatim>\<open>Close\<close> returns at once
  without reading.
\<close>

theorem chunkLen_accounting:
  "(\<not> req c \<and> \<not> resp c \<and> 2 < chunkLen c \<and> 0 < len \<and>
    readInLock E c b len = Return (n, None, b', c') \<longrightarrow>
      (\<exists>m. m \<le> length (unread c) \<and> unread c' = drop m (unread c) \<and>
           chunkLen c' = chunkLen c - int m \<and> 0 \<le> chunkLen c' \<and>
           n = min (int m) (chunkLen c - 2) \<and> take (nat n) b' = take (nat n) (unread c))) \<and>
   (\<not> req c \<and> \<not> resp c \<and> chunkLen c = 0 \<and> segments_ok (inbound c) \<and>
    unread c = hs @ LF # rest \<and> list_all (\<lambda>h. isHex h \<or> h = CR) hs \<and> b \<noteq> [] \<and>
    filter isHex hs \<noteq> [] \<and> int (hexval (filter isHex hs)) + 2 \<le> maxInt \<longrightarrow>
      (\<exists>r' i'. readChunkLen E c b =
                  (1, None, LF # tl b,
                   c\<lparr>remain := r', inbound := i',
                     chunkLen := int (hexval (filter isHex hs)) + 2\<rparr>) \<and>
                r' @ stream_of i' = rest)) \<and>
   (\<not> req c \<and> \<not> resp c \<and> chunkLen c = 0 \<and> segments_ok (inbound c) \<and>
    unread c = hs @ LF # rest \<and> list_all (\<lambda>h. isHex h \<or> h = CR) hs \<and> b \<noteq> [] \<and>
    maxInt < int (hexval (filter isHex hs)) \<longrightarrow>
      (\<exists>r' i'. readChunkLen E c b =
                  (1, Some ErrRange, LF # tl b, c\<lparr>remain := r', inbound := i'\<rparr>) \<and>
                r' @ stream_of i' = rest)) \<and>
   (eos c \<longrightarrow> drain E c buf = Some (Return (True, c)))"
proof (intro conjI impI)
  assume "\<not> req c \<and> \<not> resp c \<and> 2 < chunkLen c \<and> 0 < len \<and>
    readInLock E c b len = Return (n, None, b', c')"
  then show "\<exists>m. m \<le> length (unread c) \<and> unread c' = drop m (unread c) \<and>
           chunkLen c' = chunkLen c - int m \<and> 0 \<le> chunkLen c' \<and>
           n = min (int m) (chunkLen c - 2) \<and> take (nat n) b' = take (nat n) (unread c)"
    using readInLock_payload_accounting [of c len E b n b' c'] by simp
next
  assume a: "\<not> req c \<and> \<not> resp c \<and> chunkLen c = 0 \<and> segments_ok (inbound c) \<and>
    unread c = hs @ LF # rest \<and> list_all (\<lambda>h. isHex h \<or> h = CR) hs \<and> b \<noteq> [] \<and>
    filter isHex hs \<noteq> [] \<and> int (hexval (filter isHex hs)) + 2 \<le> maxInt"
  then have "\<exists>r' i'. readChunkLen E c b =
            (1, None, LF # tl b,
             c\<lparr>remain := r', inbound := i', chunkLen := int (hexval (filter isHex hs)) + 2\<rparr>) \<and>
           r' @ stream_of i' = rest \<and> segments_ok i'"
    by (intro readChunkLen_line) simp_all
  then show "\<exists>r' i'. readChunkLen E c b =
                  (1, None, LF # tl b,
                   c\<lparr>remain := r', inbound := i',
                     chunkLen := int (hexval (filter isHex hs)) + 2\<rparr>) \<and>
                r' @ stream_of i' = rest"
    by blast
next
  assume "\<not> req c \<and> \<not> resp c \<and> chunkLen c = 0 \<and> segments_ok (inbound c) \<and>
    unread c = hs @ LF # rest \<and> list_all (\<lambda>h. isHex h \<or> h = CR) hs \<and> b \<noteq> [] \<and>
    maxInt < int (hexval (filter isHex hs))"
  then show "\<exists>r' i'. readChunkLen E c b =
                  (1, Some ErrRange, LF # tl b, c\<lparr>remain := r', inbound := i'\<rparr>) \<and>
                r' @ stream_of i' = rest"
    using readChunkLen_range [of c hs rest b E] by blast
next
  assume "eos c"
  then show "drain E c buf = Some (Return (True, c))" by (rule drain_eos)
qed

lemma readInLock_open_chunk:
  "readInLock env0 ((framer [Data (ping @ [CR, LF])])\<lparr>chunkLen := 6\<rparr>) [0, 0, 0, 0] 4 =
     Return (4, None, ping, (framer [Data [CR, LF]])\<lparr>chunkLen := 2\<rparr>)"
proof -
  let ?c = "(framer [Data (ping @ [CR, LF])])\<lparr>chunkLen := 6\<rparr>"
  have len: "length (ping @ [CR, LF]) = 6" by (simp add: ping_def)
  have k: "(4::nat) = (if chunkLen ?c > int 4 then 4 else nat (chunkLen ?c))"
    by (simp add: framer_def)
  have m: "(4::nat) = min 4 (length (ping @ [CR, LF]))"
    unfolding len by simp
  have "readChunk env0 ?c [0, 0, 0, 0] 4 0 =
           Return (if chunkLen ?c - int 4 < 2 then int 4 - (2 - (chunkLen ?c - int 4)) else int 4,
                   None, take 4 (ping @ [CR, LF]) @ drop 4 [0, 0, 0, 0],
                   ?c\<lparr>inbound := (if 4 = length (ping @ [CR, LF]) then []
                                     else Data (drop 4 (ping @ [CR, LF])) # []),
                      chunkLen := chunkLen ?c - int 4\<rparr>)"
    by (rule readChunk_segment [OF _ _ _ _ _ k m]) (simp_all add: framer_def)
  then have "readChunk env0 ?c [0, 0, 0, 0] 4 0 =
     Return (4, None, ping, (framer [Data [CR, LF]])\<lparr>chunkLen := 2\<rparr>)"
    unfolding len by (simp add: framer_def ping_def)
  then show ?thesis
    by (simp add: readInLock_def readTrailer_none readChunkLen_def framer_def)
qed

lemma hexval_huge_line: "int (hexval huge_line) = 2 ^ 63"
  by (simp add: huge_line_def hexval_def digitval_def)

lemma isHex_huge_line: "filter isHex huge_line = huge_line" "list_all (\<lambda>h. isHex h \<or> h = CR) huge_line"
  by (simp_all add: huge_line_def isHex_def)

theorem chunkLen_accounting_witness:
  "\<not> req ((framer [Data (ping @ [CR, LF])])\<lparr>chunkLen := 6\<rparr>) \<and>
   \<not> resp ((framer [Data (ping @ [CR, LF])])\<lparr>chunkLen := 6\<rparr>) \<and>
   2 < chunkLen ((framer [Data (ping @ [CR, LF])])\<lparr>chunkLen := 6\<rparr>) \<and> (0::nat) < 4 \<and>
   readInLock env0 ((framer [Data (ping @ [CR, LF])])\<lparr>chunkLen := 6\<rparr>) [0, 0, 0, 0] 4 =
     Return (4, None, ping, (framer [Data [CR, LF]])\<lparr>chunkLen := 2\<rparr>) \<and>
   (\<exists>m. m \<le> length (unread ((framer [Data (ping @ [CR, LF])])\<lparr>chunkLen := 6\<rparr>)) \<and>
      unread ((framer [Data [CR, LF]])\<lparr>chunkLen := 2\<rparr>) =
        drop m (unread ((framer [Data (ping @ [CR, LF])])\<lparr>chunkLen := 6\<rparr>)) \<and>
      chunkLen ((framer [Data [CR, LF]])\<lparr>chunkLen := 2\<rparr>) =
        chunkLen ((framer [Data (ping @ [CR, LF])])\<lparr>chunkLen := 6\<rparr>) - int m \<and>
      0 \<le> chunkLen ((framer [Data [CR, LF]])\<lparr>chunkLen := 2\<rparr>) \<and>
      (4::int) = min (int m) (chunkLen ((framer [Data (ping @ [CR, LF])])\<lparr>chunkLen := 6\<rparr>) - 2) \<and>
      take (nat 4) ping = take (nat 4) (unread ((framer [Data (ping @ [CR, LF])])\<lparr>chunkLen := 6\<rparr>))) \<and>
   segments_ok (inbound (framer [Data ([52, CR, LF] @ ping)])) \<and>
   unread (framer [Data ([52, CR, LF] @ ping)]) = [52, CR] @ LF # ping \<and>
   list_all (\<lambda>h. isHex h \<or> h = CR) [52, CR] \<and>
   filter isHex [52, CR] = [52] \<and> int (hexval [52]) + 2 = 6 \<and> 6 \<le> maxInt \<and>
   (\<exists>r' i'. readChunkLen env0 (framer [Data ([52, CR, LF] @ ping)]) [0, 0, 0, 0] =
               (1, None, [LF, 0, 0, 0], (framer i')\<lparr>remain := r', chunkLen := 6\<rparr>) \<and>
             r' @ stream_of i' = ping) \<and>
   segments_ok (inbound (framer [Data (huge_line @ [LF])])) \<and>
   unread (framer [Data (huge_line @ [LF])]) = huge_line @ LF # [] \<and>
   list_all (\<lambda>h. isHex h \<or> h = CR) huge_line \<and>
   maxInt < int (hexval (filter isHex huge_line)) \<and>
   (\<exists>r' i'. readChunkLen env0 (framer [Data (huge_line @ [LF])]) [0, 0, 0, 0] =
               (1, Some ErrRange, [LF, 0, 0, 0], (framer i')\<lparr>remain := r'\<rparr>) \<and>
             r' @ stream_of i' = []) \<and>
   eos ((framer [])\<lparr>eos := True\<rparr>) \<and>
   drain env0 ((framer [])\<lparr>eos := True\<rparr>) [] = Some (Return (True, (framer [])\<lparr>eos := True\<rparr>))"
  using chunkLen_accounting [of "(framer [Data (ping @ [CR, LF])])\<lparr>chunkLen := 6\<rparr>" 4 env0
      "[0, 0, 0, 0]" 4 ping "(framer [Data [CR, LF]])\<lparr>chunkLen := 2\<rparr>"]
    chunkLen_accounting [of "framer [Data ([52, CR, LF] @ ping)]" _ env0 "[0, 0, 0, 0]" _ _ _
      "[52, CR]" ping]
    chunkLen_accounting [of "framer [Data (huge_line @ [LF])]" _ env0 "[0, 0, 0, 0]" _ _ _
      huge_line "[]"]
    chunkLen_accounting [of "(framer [])\<lparr>eos := True\<rparr>" _ env0 _ _ _ _ _ _ "[]"]
    readInLock_open_chunk
  apply (simp add: isHex_huge_line hexval_huge_line)
  apply (simp add: framer_def unread_def segments_ok_def isHex_def hexval_def digitval_def maxInt_def CR_def LF_def ping_def)
  done

text \<open>
  C9 as stated fails: after the zero-length chunk has set \<open>eos\<close>, \<open>chunkLen\<close> is still 2
  although the chunk is consumed, and the next \<^verbatim>\<open>Read\<close> reads on: it takes two bytes of
  the following frame as a terminator and then fails on the rest of its length line.
\<close>

theorem Read_after_eos_counterexample:
  "ObfsConn_Read env0 (framer [Data zero_chunk, Data (frame ping)]) [0, 0, 0, 0] 4 =
     Return (0, Some ReadFromClosedObfs, [LF, 0, 0, 0],
             (framer [Data (frame ping)])\<lparr>chunkLen := 2, eos := True\<rparr>) \<and>
   eos ((framer [Data (frame ping)])\<lparr>chunkLen := 2, eos := True\<rparr>) \<and>
   chunkLen ((framer [Data (frame ping)])\<lparr>chunkLen := 2, eos := True\<rparr>) = 2 \<and>
   ObfsConn_Read env0 ((framer [Data (frame ping)])\<lparr>chunkLen := 2, eos := True\<rparr>) [LF, 0, 0, 0] 4 =
     Return (1, Some IncorrectChunked, [LF, CR, 0, 0],
             (framer [Data (ping @ [CR, LF])])\<lparr>eos := True\<rparr>) \<and>
   inbound ((framer [Data (ping @ [CR, LF])])\<lparr>eos := True\<rparr>) \<noteq>
     inbound ((framer [Data (frame ping)])\<lparr>chunkLen := 2, eos := True\<rparr>)"
proof -
  let ?c0 = "(framer [Data zero_chunk, Data (frame ping)])\<lparr>reading := True\<rparr>"
  have 1: "readInLock env0 ?c0 [0, 0, 0, 0] 4 =
           Return (0, Some ReadFromClosedObfs, LF # tl [0, 0, 0, 0],
                   ?c0\<lparr>inbound := [Data (frame ping)], chunkLen := 2, eos := True\<rparr>)"
    by (intro readInLock_zero_chunk) (simp_all add: framer_def)
  let ?c1 = "(framer [Data (frame ping)])\<lparr>chunkLen := 2, eos := True, reading := True\<rparr>"
  let ?c2 = "(framer [Data (LF # ping @ [CR, LF])])\<lparr>eos := True, reading := True\<rparr>"
  have fp: "frame ping = [52, CR, LF] @ ping @ [CR, LF]"
    by (simp add: frame_def ping_def sprintf_x.simps hexdigit_def)
  have t: "readTrailer env0 ?c1 [LF, 0, 0, 0] = Return (None, [52, CR, 0, 0], ?c2)"
    by (simp add: readTrailer_def doRead_def RemainConn_Read_def Conn_Read_def framer_def fp Let_def)
  have l: "readChunkLenStr env0 ?c2 [52, CR, 0, 0] [] =
      (1, None, [], [LF, CR, 0, 0], (framer [Data (ping @ [CR, LF])])\<lparr>eos := True, reading := True\<rparr>)"
    by (subst readChunkLenStr.simps)
      (simp add: doRead_def RemainConn_Read_def Conn_Read_def framer_def Let_def ping_def)
  have 2: "readInLock env0 ?c1 [LF, 0, 0, 0] 4 =
      Return (1, Some IncorrectChunked, [LF, CR, 0, 0],
              (framer [Data (ping @ [CR, LF])])\<lparr>eos := True, reading := True\<rparr>)"
    by (simp add: readInLock_def t readChunkLen_def l) (simp add: framer_def)
  have ne: "inbound ((framer [Data (ping @ [CR, LF])])\<lparr>eos := True\<rparr>) \<noteq>
     inbound ((framer [Data (frame ping)])\<lparr>chunkLen := 2, eos := True\<rparr>)"
    by (simp add: framer_def fp)
  have 3: "ObfsConn_Read env0 (framer [Data zero_chunk, Data (frame ping)]) [0, 0, 0, 0] 4 =
     Return (0, Some ReadFromClosedObfs, [LF, 0, 0, 0],
             (framer [Data (frame ping)])\<lparr>chunkLen := 2, eos := True\<rparr>)"
    using 1 by (simp add: ObfsConn_Read_def) (simp add: framer_def)
  have 4: "ObfsConn_Read env0 ((framer [Data (frame ping)])\<lparr>chunkLen := 2, eos := True\<rparr>) [LF, 0, 0, 0] 4 =
     Return (1, Some IncorrectChunked, [LF, CR, 0, 0],
             (framer [Data (ping @ [CR, LF])])\<lparr>eos := True\<rparr>)"
    using 2 by (simp add: ObfsConn_Read_def) (simp add: framer_def)
  from 3 4 ne show ?thesis
    by simp
qed

text \<open>
  The two lengths in between, \<open>2\<^sup>6\<^sup>3 - 2\<close> and \<open>2\<^sup>6\<^sup>3 - 1\<close>, are parsed, but the sum of
  line 305 wraps around: \<open>chunkLen\<close> becomes negative and the slice expression of line
  321 panics.
\<close>

lemma readInLock_length_wrap:
  assumes "\<not> req c" "\<not> resp c" "chunkLen c = 0" "segments_ok (inbound c)"
    "unread c = hs @ LF # rest" "list_all (\<lambda>h. isHex h \<or> h = CR) hs" "b \<noteq> []"
    "int (hexval (filter isHex hs)) = maxInt - 1 \<or> int (hexval (filter isHex hs)) = maxInt"
    "0 < len"
  shows "\<exists>r' i'. readChunkLen E c b =
            (1, None, LF # tl b,
             c\<lparr>remain := r', inbound := i',
               chunkLen := int (hexval (filter isHex hs)) + 2 - 2 ^ 64\<rparr>)"
    and "readInLock E c b len = Panic"
proof -
  from assms readChunkLenStr_line [of c hs LF rest b E "[]"]
  obtain r' i' where l: "readChunkLenStr E c b [] =
            (1, None, filter isHex hs, LF # tl b, c\<lparr>remain := r', inbound := i'\<rparr>)"
    by auto
  from assms(8) have ne: "filter isHex hs \<noteq> []"
    by (auto simp: hexval_Nil maxInt_def)
  from assms(8) have p: "ParseInt16 (filter isHex hs) = Inr (int (hexval (filter isHex hs)))"
    by (auto simp: ParseInt16_def maxInt_def)
  from assms(8) have w: "wrap64 (int (hexval (filter isHex hs)) + 2) =
      int (hexval (filter isHex hs)) + 2 - 2 ^ 64"
    and neg: "int (hexval (filter isHex hs)) + 2 - 2 ^ 64 < 0"
    by (auto simp: wrap64_def maxInt_def)
  from l assms(3) ne have h: "readChunkLen E c b =
            (1, None, LF # tl b,
             c\<lparr>remain := r', inbound := i',
               chunkLen := int (hexval (filter isHex hs)) + 2 - 2 ^ 64\<rparr>)"
    by (simp add: readChunkLen_def p w)
  then show "\<exists>r' i'. readChunkLen E c b =
            (1, None, LF # tl b,
             c\<lparr>remain := r', inbound := i',
               chunkLen := int (hexval (filter isHex hs)) + 2 - 2 ^ 64\<rparr>)"
    by blast
  from neg have "readChunk E (c\<lparr>remain := r', inbound := i',
               chunkLen := int (hexval (filter isHex hs)) + 2 - 2 ^ 64\<rparr>) (LF # tl b) len 1 = Panic"
    by (simp add: readChunk_def)
  with h assms(3,9) show "readInLock E c b len = Panic"
    by (simp add: readInLock_def readTrailer_none)
qed

end
